theory Spec2Isabelle
  imports Complex_Main "HOL-Library.Word" "HOL-Library.Multiset" "HOL-Library.Sublist"
begin

unbundle bit_operations_syntax

section \<open>Board model (gameLogic.js)\<close>

text \<open>
  A piece is the object \<^verbatim>\<open>{color, number, promoted}\<close>; the colour strings
  \<^verbatim>\<open>'white'\<close> and \<^verbatim>\<open>'black'\<close> are the two constructors of \<open>color\<close>.
  A board is the array of row arrays of the source; a square holds \<^verbatim>\<open>null\<close>
  (\<open>None\<close>) or a piece.  Coordinates are array indices (natural numbers).
\<close>

datatype color = White | Black

record piece =
  color :: color
  number :: nat
  promoted :: bool

type_synonym board = "piece option list list"

datatype js_error = TypeError

text \<open>
  \<^verbatim>\<open>board[r][c]\<close> read as a truth value: a missing element of a row is
  \<^verbatim>\<open>undefined\<close>, falsy like \<^verbatim>\<open>null\<close>, so both are \<open>None\<close>.  Reading
  \<^verbatim>\<open>board[r]\<close> past the last row gives \<^verbatim>\<open>undefined\<close>, and indexing that
  raises a TypeError: the functions that scan rows 0..7 are modelled for boards that have
  their eight rows (\<open>wf_board\<close>), and \<open>simulateFullMove\<close>, whose row index is
  an argument, returns the error as a value.
\<close>

definition cell :: "board \<Rightarrow> nat \<Rightarrow> nat \<Rightarrow> piece option" where
  "cell b r c = (if r < length b \<and> c < length (b ! r) then b ! r ! c else None)"

text \<open>
  \<^verbatim>\<open>arr[i] = v\<close>: JavaScript extends the array when \<open>i\<close> is past its end,
  leaving holes that read as \<^verbatim>\<open>undefined\<close>.
\<close>

definition js_set :: "'a option list \<Rightarrow> nat \<Rightarrow> 'a option \<Rightarrow> 'a option list" where
  "js_set xs i v =
     (if i < length xs then xs[i := v] else xs @ replicate (i - length xs) None @ [v])"

text \<open>\<^verbatim>\<open>board[r][c] = v\<close> for a row \<open>r\<close> the board has.\<close>

definition setCell :: "board \<Rightarrow> nat \<Rightarrow> nat \<Rightarrow> piece option \<Rightarrow> board" where
  "setCell b r c v = b[r := js_set (b ! r) c v]"

definition wf_square :: "piece option \<Rightarrow> bool" where
  "wf_square x = (case x of None \<Rightarrow> True | Some p \<Rightarrow> 1 \<le> number p \<and> number p \<le> 8)"

definition wf_board :: "board \<Rightarrow> bool" where
  "wf_board b = (length b = 8 \<and> list_all (\<lambda>rw. length rw = 8 \<and> list_all wf_square rw) b)"

definition opponent :: "color \<Rightarrow> color" where
  "opponent c = (if c = White then Black else White)"

subsection \<open>Move generation\<close>

definition stepTargets :: "board \<Rightarrow> nat \<Rightarrow> nat \<Rightarrow> color \<Rightarrow> (nat \<times> nat) list" where
  "stepTargets b r c pieceColor =
     (let direction = (if pieceColor = White then - 1 else 1 :: int);
          newRow = int r + direction
      in if 0 \<le> newRow \<and> newRow < 8 then
           (if cell b (nat newRow) c = None then [(nat newRow, c)] else []) @
           concat (map (\<lambda>deltaCol.
                     let newCol = int c + deltaCol
                     in if 0 \<le> newCol \<and> newCol < 8 \<and> cell b (nat newRow) (nat newCol) = None
                        then [(nat newRow, nat newCol)] else [])
                   [- 1, 1])
         else [])"

definition getValidMoves :: "board \<Rightarrow> nat \<Rightarrow> nat \<Rightarrow> (nat \<times> nat) list" where
  "getValidMoves b r c =
     (case cell b r c of None \<Rightarrow> [] | Some p \<Rightarrow> stepTargets b r c (color p))"

definition getValidMovesOnBoard :: "nat \<Rightarrow> nat \<Rightarrow> board \<Rightarrow> color \<Rightarrow> (nat \<times> nat) list" where
  "getValidMovesOnBoard r c boardState pieceColor = stepTargets boardState r c pieceColor"

record move =
  fromRow :: nat
  fromCol :: nat
  toRow :: nat
  toCol :: nat
  piece :: piece

definition getAllPossibleMovesForPlayer :: "board \<Rightarrow> color \<Rightarrow> move list" where
  "getAllPossibleMovesForPlayer b playerColor =
     concat (map (\<lambda>r. concat (map (\<lambda>c.
        case cell b r c of
          None \<Rightarrow> []
        | Some p \<Rightarrow>
            if color p = playerColor
            then map (\<lambda>(mr, mc). \<lparr>fromRow = r, fromCol = c, toRow = mr, toCol = mc, piece = p\<rparr>)
                     (getValidMoves b r c)
            else []) [0..<8])) [0..<8])"

definition getAllPossibleMovesForPlayerOnBoard :: "color \<Rightarrow> board \<Rightarrow> move list" where
  "getAllPossibleMovesForPlayerOnBoard playerColor boardState =
     concat (map (\<lambda>r. concat (map (\<lambda>c.
        case cell boardState r c of
          None \<Rightarrow> []
        | Some p \<Rightarrow>
            if color p = playerColor
            then map (\<lambda>(mr, mc). \<lparr>fromRow = r, fromCol = c, toRow = mr, toCol = mc, piece = p\<rparr>)
                     (getValidMovesOnBoard r c boardState (color p))
            else []) [0..<8])) [0..<8])"

definition hasValidMoves :: "board \<Rightarrow> color \<Rightarrow> bool" where
  "hasValidMoves b playerColor =
     list_ex (\<lambda>r. list_ex (\<lambda>c.
        case cell b r c of
          None \<Rightarrow> False
        | Some p \<Rightarrow> color p = playerColor \<and> getValidMoves b r c \<noteq> []) [0..<8]) [0..<8]"

subsection \<open>Promotion capture\<close>

record promotionResult =
  points :: nat
  leadsToChoice :: bool
  captures :: "(nat \<times> nat) list"

definition matchingPieces :: "board \<Rightarrow> piece \<Rightarrow> (nat \<times> nat) list" where
  "matchingPieces boardState pc =
     concat (map (\<lambda>r. concat (map (\<lambda>c.
        case cell boardState r c of
          None \<Rightarrow> []
        | Some targetPiece \<Rightarrow>
            if color targetPiece = opponent (color pc) \<and> number targetPiece = number pc
               \<and> \<not> promoted targetPiece
            then [(r, c)] else []) [0..<8])) [0..<8])"

definition processPromotion :: "nat \<Rightarrow> nat \<Rightarrow> board \<Rightarrow> js_error + promotionResult" where
  "processPromotion r c boardState =
     (case cell boardState r c of
        None \<Rightarrow> Inl TypeError
      | Some pc \<Rightarrow>
          (case matchingPieces boardState pc of
             [] \<Rightarrow> Inr \<lparr>points = 0, leadsToChoice = False, captures = []\<rparr>
           | [m] \<Rightarrow> Inr \<lparr>points = number pc, leadsToChoice = False, captures = [m]\<rparr>
           | m # _ # _ \<Rightarrow> Inr \<lparr>points = number pc, leadsToChoice = True, captures = [m]\<rparr>))"

subsection \<open>Combination capture\<close>

record pieceData =
  pd_row :: nat
  pd_col :: nat
  pd_piece :: piece

definition pd_key :: "pieceData \<Rightarrow> int \<times> int" where
  "pd_key p = (int (pd_row p), int (pd_col p))"

definition directions :: "(int \<times> int) list" where
  "directions = [(- 1, - 1), (- 1, 0), (- 1, 1), (0, - 1), (0, 1), (1, - 1), (1, 0), (1, 1)]"

text \<open>
  The body of the \<^verbatim>\<open>for (const [dR, dC] of d)\<close> loop of
  \<^verbatim>\<open>areConnectedOptimized\<close>: the keys \<^verbatim>\<open>`${row},${col}`\<close> are the pairs
  themselves, the sets \<^verbatim>\<open>pS\<close> and \<^verbatim>\<open>vS\<close> are lists without repetition in
  insertion order, and the queue holds the position of the object \<^verbatim>\<open>ps.find\<close>
  returns.
\<close>

fun scanDirs ::
  "(int \<times> int) list \<Rightarrow> int \<times> int \<Rightarrow> (int \<times> int) list \<Rightarrow>
   (int \<times> int) list \<times> (int \<times> int) list \<Rightarrow> (int \<times> int) list \<times> (int \<times> int) list" where
  "scanDirs pS c [] (vS, q) = (vS, q)"
| "scanDirs pS c (d # ds) (vS, q) =
     (let k = (fst c + fst d, snd c + snd d)
      in if k \<in> set pS \<and> k \<notin> set vS
         then scanDirs pS c ds (vS @ [k], q @ [k])
         else scanDirs pS c ds (vS, q))"

lemma grow_first:
  "k \<in> P \<Longrightarrow> k \<notin> V \<Longrightarrow> V' = insert k V \<Longrightarrow>
   V \<subseteq> V' \<and> V' \<subseteq> V \<union> P \<and> (\<exists>x. x \<in> V' \<and> x \<notin> V)"
  by auto

lemma grow_more:
  "k \<in> P \<Longrightarrow> k \<notin> V \<Longrightarrow> insert k V \<subseteq> V' \<Longrightarrow> V' \<subseteq> insert k V \<union> P \<Longrightarrow>
   V \<subseteq> V' \<and> V' \<subseteq> V \<union> P \<and> (\<exists>x. x \<in> V' \<and> x \<notin> V)"
  by auto

lemma scanDirs_grows:
  "scanDirs pS c ds (vS, q) = (vS', q') \<Longrightarrow>
   (vS' = vS \<and> q' = q) \<or>
   (set vS \<subseteq> set vS' \<and> set vS' \<subseteq> set vS \<union> set pS \<and> (\<exists>x. x \<in> set vS' \<and> x \<notin> set vS))"
proof (induction ds arbitrary: vS q)
  case Nil
  then show ?case by simp
next
  case (Cons d ds)
  define k where "k = (fst c + fst d, snd c + snd d)"
  have step: "scanDirs pS c (d # ds) (vS, q) =
      (if k \<in> set pS \<and> k \<notin> set vS then scanDirs pS c ds (vS @ [k], q @ [k])
       else scanDirs pS c ds (vS, q))"
    unfolding k_def by (simp add: Let_def)
  show ?case
  proof (cases "k \<in> set pS \<and> k \<notin> set vS")
    case True
    with Cons.prems step have "scanDirs pS c ds (vS @ [k], q @ [k]) = (vS', q')"
      by presburger
    from Cons.IH [OF this]
    have "(vS' = vS @ [k] \<and> q' = q @ [k]) \<or>
          (set (vS @ [k]) \<subseteq> set vS' \<and> set vS' \<subseteq> set (vS @ [k]) \<union> set pS \<and>
           (\<exists>x. x \<in> set vS' \<and> x \<notin> set (vS @ [k])))" .
    then have "set vS \<subseteq> set vS' \<and> set vS' \<subseteq> set vS \<union> set pS \<and>
               (\<exists>x. x \<in> set vS' \<and> x \<notin> set vS)"
    proof
      assume "vS' = vS @ [k] \<and> q' = q @ [k]"
      then have "set vS' = insert k (set vS)" by simp
      with True show ?thesis by (intro grow_first [of k]) simp_all
    next
      assume "set (vS @ [k]) \<subseteq> set vS' \<and> set vS' \<subseteq> set (vS @ [k]) \<union> set pS \<and>
           (\<exists>x. x \<in> set vS' \<and> x \<notin> set (vS @ [k]))"
      then have "insert k (set vS) \<subseteq> set vS'" and "set vS' \<subseteq> insert k (set vS) \<union> set pS"
        and "\<exists>x. x \<in> set vS' \<and> x \<notin> insert k (set vS)"
        by simp_all
      with True show ?thesis by (intro grow_more [of k]) simp_all
    qed
    then show ?thesis ..
  next
    case False
    with Cons.prems step have "scanDirs pS c ds (vS, q) = (vS', q')"
      by presburger
    from Cons.IH [OF this] show ?thesis .
  qed
qed

lemma scanDirs_measure:
  assumes "scanDirs pS c ds (vS, q) = (vS', q')"
  shows "card (set pS - set vS') < card (set pS - set vS) \<or> (vS' = vS \<and> q' = q)"
proof -
  from scanDirs_grows [OF assms] show ?thesis
  proof
    assume "vS' = vS \<and> q' = q"
    then show ?thesis by simp
  next
    assume a: "set vS \<subseteq> set vS' \<and> set vS' \<subseteq> set vS \<union> set pS \<and>
      (\<exists>x. x \<in> set vS' \<and> x \<notin> set vS)"
    then obtain x where x: "x \<in> set vS'" "x \<notin> set vS" by blast
    with a have "x \<in> set pS - set vS" "x \<notin> set pS - set vS'" by blast+
    moreover from a have "set pS - set vS' \<subseteq> set pS - set vS" by blast
    ultimately have "set pS - set vS' \<subset> set pS - set vS" by (metis psubsetI)
    then have "card (set pS - set vS') < card (set pS - set vS)"
      by (rule psubset_card_mono [rotated]) simp
    then show ?thesis by simp
  qed
qed

function bfsLoop ::
  "(int \<times> int) list \<Rightarrow> (int \<times> int) list \<Rightarrow> (int \<times> int) list \<Rightarrow> (int \<times> int) list" where
  "bfsLoop pS vS [] = vS"
| "bfsLoop pS vS (c # q) =
     (case scanDirs pS c directions (vS, q) of (vS', q') \<Rightarrow> bfsLoop pS vS' q')"
  by pat_completeness auto
termination
  apply (relation "measures [\<lambda>(pS, vS, q). card (set pS - set vS), \<lambda>(pS, vS, q). length q]")
   apply simp
  apply (drule sym)
  apply (drule scanDirs_measure)
  apply auto
  done

definition areConnectedOptimized :: "pieceData list \<Rightarrow> bool" where
  "areConnectedOptimized ps =
     (if length ps \<le> 1 then True
      else let pS = remdups (map pd_key ps);
               start = pd_key (hd ps)
           in length (bfsLoop pS [start] [start]) = length ps)"

text \<open>
  The masks \<^verbatim>\<open>for (let m = 3; m < (1 << n); m++)\<close>: \<^verbatim>\<open>1 << n\<close> is a 32-bit
  signed shift whose count is taken modulo 32.  Inside the loop \<open>m\<close> is below
  \<open>2^30\<close>, and the two bit tests \<^verbatim>\<open>(m >> i) & 1\<close> and \<^verbatim>\<open>m & (1 << i)\<close> are 32-bit
  operations with the same rule for the shift count.
\<close>

definition maskLimit :: "nat \<Rightarrow> int" where
  "maskLimit n = sint (push_bit (n mod 32) (1 :: 32 word))"

definition maskBitShr :: "int \<Rightarrow> nat \<Rightarrow> bool" where
  "maskBitShr m i = (signed_drop_bit (i mod 32) (word_of_int m :: 32 word) AND 1 \<noteq> 0)"

definition maskBitAnd :: "int \<Rightarrow> nat \<Rightarrow> bool" where
  "maskBitAnd m i = ((word_of_int m :: 32 word) AND push_bit (i mod 32) 1 \<noteq> 0)"

definition findValidCombinations :: "pieceData list \<Rightarrow> pieceData list list" where
  "findValidCombinations ps =
     (let n = length ps
      in concat (map (\<lambda>m.
           let cL = length (filter (maskBitShr m) [0..<n])
           in if cL > 8 \<or> cL < 2 then []
              else
                let c = map (\<lambda>i. ps ! i) (filter (maskBitAnd m) [0..<n]);
                    s = sum_list (map (\<lambda>pD. number (pd_piece pD)) c);
                    hW = list_ex (\<lambda>pD. color (pd_piece pD) = White) c;
                    hB = list_ex (\<lambda>pD. color (pd_piece pD) \<noteq> White) c
                in if s = 10 \<and> hW \<and> hB \<and> areConnectedOptimized c then [c] else [])
         [3 .. maskLimit n - 1]))"

definition nearbyPieces :: "nat \<Rightarrow> nat \<Rightarrow> board \<Rightarrow> pieceData list" where
  "nearbyPieces checkRow checkCol boardState =
     concat (map (\<lambda>r. concat (map (\<lambda>c.
        case cell boardState r c of
          None \<Rightarrow> []
        | Some p \<Rightarrow> [\<lparr>pd_row = r, pd_col = c, pd_piece = p\<rparr>])
        [checkCol - 3 ..< Suc (min 7 (checkCol + 3))]))
        [checkRow - 3 ..< Suc (min 7 (checkRow + 3))])"

fun colorScan :: "pieceData list \<Rightarrow> bool \<times> bool \<Rightarrow> bool \<times> bool" where
  "colorScan [] (hasWhitePiece, hasBlackPiece) = (hasWhitePiece, hasBlackPiece)"
| "colorScan (pD # rest) (hasWhitePiece, hasBlackPiece) =
     (let hw = (hasWhitePiece \<or> color (pd_piece pD) = White);
          hb = (if color (pd_piece pD) = White then hasBlackPiece
                else hasBlackPiece \<or> color (pd_piece pD) = Black)
      in if hw \<and> hb then (hw, hb) else colorScan rest (hw, hb))"

text \<open>
  The second half of \<^verbatim>\<open>checkCombinationsAroundPositionOnBoard\<close>: the colour scan
  with its early exit, then the enumeration, for the pieces \<open>nearby\<close> in the order
  they were collected.
\<close>

definition combinationsAmong :: "pieceData list \<Rightarrow> pieceData list list" where
  "combinationsAmong nearby =
     (case colorScan nearby (False, False) of
        (hasWhitePiece, hasBlackPiece) \<Rightarrow>
          if \<not> hasWhitePiece \<or> \<not> hasBlackPiece then []
          else findValidCombinations nearby)"

definition checkCombinationsAroundPositionOnBoard ::
  "nat \<Rightarrow> nat \<Rightarrow> board \<Rightarrow> color \<Rightarrow> pieceData list list" where
  "checkCombinationsAroundPositionOnBoard checkRow checkCol boardState scoringPlayerColor =
     combinationsAmong (nearbyPieces checkRow checkCol boardState)"

subsection \<open>JavaScript numbers\<close>

text \<open>
  Scores and search values are JavaScript numbers.  The finite ones are modelled as exact
  rationals: IEEE-754 rounding is not modelled, and neither is the overflow of a finite
  sum to an infinity, so what is proved of finite values is about numbers whose sums stay
  inside the range of the doubles.  The infinities and NaN are kept, with
  JavaScript's rules: a comparison with NaN is false, \<^verbatim>\<open>Math.max\<close> and
  \<^verbatim>\<open>Math.min\<close> return NaN when an argument is NaN, and \<open>-\<infinity> + \<infinity>\<close> is NaN.
\<close>

datatype jsnum = NaN | NegInf | Fin rat | PosInf

fun js_add :: "jsnum \<Rightarrow> jsnum \<Rightarrow> jsnum" where
  "js_add NaN y = NaN"
| "js_add NegInf NaN = NaN"
| "js_add NegInf NegInf = NegInf"
| "js_add NegInf (Fin b) = NegInf"
| "js_add NegInf PosInf = NaN"
| "js_add (Fin a) NaN = NaN"
| "js_add (Fin a) NegInf = NegInf"
| "js_add (Fin a) (Fin b) = Fin (a + b)"
| "js_add (Fin a) PosInf = PosInf"
| "js_add PosInf NaN = NaN"
| "js_add PosInf NegInf = NaN"
| "js_add PosInf (Fin b) = PosInf"
| "js_add PosInf PosInf = PosInf"

fun js_neg :: "jsnum \<Rightarrow> jsnum" where
  "js_neg NaN = NaN"
| "js_neg NegInf = PosInf"
| "js_neg (Fin a) = Fin (- a)"
| "js_neg PosInf = NegInf"

definition js_sub :: "jsnum \<Rightarrow> jsnum \<Rightarrow> jsnum" where
  "js_sub x y = js_add x (js_neg y)"

fun js_lt :: "jsnum \<Rightarrow> jsnum \<Rightarrow> bool" where
  "js_lt NaN y = False"
| "js_lt NegInf NaN = False"
| "js_lt NegInf NegInf = False"
| "js_lt NegInf (Fin b) = True"
| "js_lt NegInf PosInf = True"
| "js_lt (Fin a) NaN = False"
| "js_lt (Fin a) NegInf = False"
| "js_lt (Fin a) (Fin b) = (a < b)"
| "js_lt (Fin a) PosInf = True"
| "js_lt PosInf y = False"

definition js_le :: "jsnum \<Rightarrow> jsnum \<Rightarrow> bool" where
  "js_le x y = (x \<noteq> NaN \<and> y \<noteq> NaN \<and> (js_lt x y \<or> x = y))"

definition js_gt :: "jsnum \<Rightarrow> jsnum \<Rightarrow> bool" where
  "js_gt x y = js_lt y x"

definition js_ge :: "jsnum \<Rightarrow> jsnum \<Rightarrow> bool" where
  "js_ge x y = js_le y x"

definition js_max :: "jsnum \<Rightarrow> jsnum \<Rightarrow> jsnum" where
  "js_max x y = (if x = NaN \<or> y = NaN then NaN else if js_lt x y then y else x)"

definition js_min :: "jsnum \<Rightarrow> jsnum \<Rightarrow> jsnum" where
  "js_min x y = (if x = NaN \<or> y = NaN then NaN else if js_lt y x then y else x)"

subsection \<open>Move simulation\<close>

record simResult =
  tempBoard :: "board option"
  aiScoreGain :: jsnum
  leadsToChoiceForThisPlayer :: bool

definition invalidMove :: simResult where
  "invalidMove = \<lparr>tempBoard = None, aiScoreGain = NegInf, leadsToChoiceForThisPlayer = False\<rparr>"

text \<open>
  The capture loop over the positions of the accepted combinations: the set
  \<^verbatim>\<open>piecesToRemoveByCombination\<close> is the list of keys in insertion order.
\<close>

fun collectCaptures ::
  "board \<Rightarrow> color \<Rightarrow> pieceData list \<Rightarrow> nat \<times> (nat \<times> nat) list \<Rightarrow> nat \<times> (nat \<times> nat) list" where
  "collectCaptures tb forPlayerColor [] (scoreGain, ks) = (scoreGain, ks)"
| "collectCaptures tb forPlayerColor (pos # rest) (scoreGain, ks) =
     (case cell tb (pd_row pos) (pd_col pos) of
        None \<Rightarrow> collectCaptures tb forPlayerColor rest (scoreGain, ks)
      | Some pieceInCombination \<Rightarrow>
          if color pieceInCombination \<noteq> forPlayerColor \<and> (pd_row pos, pd_col pos) \<notin> set ks
          then collectCaptures tb forPlayerColor rest
                 (scoreGain + number pieceInCombination, ks @ [(pd_row pos, pd_col pos)])
          else collectCaptures tb forPlayerColor rest (scoreGain, ks))"

definition clearSquares :: "(nat \<times> nat) list \<Rightarrow> board \<Rightarrow> board" where
  "clearSquares ks tb = fold (\<lambda>(r, c) b. setCell b r c None) ks tb"

text \<open>
  The promotion block of \<^verbatim>\<open>simulateFullMove\<close>: \<^verbatim>\<open>movedPiece.promoted = true\<close>
  writes to the object that already stands on the destination square of the copy.
\<close>

definition promotionStep ::
  "nat \<Rightarrow> nat \<Rightarrow> piece \<Rightarrow> board \<Rightarrow> js_error + (board \<times> nat \<times> bool)" where
  "promotionStep tr tc movedPiece tb =
     (let isPromotion = ((color movedPiece = White \<and> tr = 0) \<or> (color movedPiece = Black \<and> tr = 7))
      in if isPromotion \<and> \<not> promoted movedPiece then
           (let tb2 = setCell tb tr tc (Some (movedPiece\<lparr>promoted := True\<rparr>))
            in case processPromotion tr tc tb2 of
                 Inl e \<Rightarrow> Inl e
               | Inr promotionResult \<Rightarrow>
                   Inr (clearSquares (captures promotionResult) tb2,
                        points promotionResult, leadsToChoice promotionResult))
         else Inr (tb, 0, False))"

text \<open>
  The combination block of \<^verbatim>\<open>simulateFullMove\<close>, for the combinations found:
  collect the opposing squares once each, add their numbers, clear them.
\<close>

definition applyCombinations ::
  "board \<Rightarrow> color \<Rightarrow> pieceData list list \<Rightarrow> nat \<Rightarrow> board \<times> nat" where
  "applyCombinations tb forPlayerColor combinations scoreGain =
     (if combinations \<noteq> [] then
        (case collectCaptures tb forPlayerColor (concat combinations) (scoreGain, []) of
           (scoreGain', piecesToRemoveByCombination) \<Rightarrow>
             (clearSquares piecesToRemoveByCombination tb, scoreGain'))
      else (tb, scoreGain))"

definition combinationStep :: "nat \<Rightarrow> nat \<Rightarrow> color \<Rightarrow> board \<Rightarrow> nat \<Rightarrow> board \<times> nat" where
  "combinationStep tr tc forPlayerColor tb scoreGain =
     applyCombinations tb forPlayerColor
       (checkCombinationsAroundPositionOnBoard tr tc tb forPlayerColor) scoreGain"

definition simulateFullMove ::
  "nat \<Rightarrow> nat \<Rightarrow> nat \<Rightarrow> nat \<Rightarrow> color \<Rightarrow> board \<Rightarrow> js_error + simResult" where
  "simulateFullMove fr fc tr tc forPlayerColor sourceBoard =
     (case cell sourceBoard fr fc of
        None \<Rightarrow> Inr invalidMove
      | Some pieceToMove \<Rightarrow>
          if color pieceToMove \<noteq> forPlayerColor then Inr invalidMove
          else if \<not> tr < length sourceBoard then Inl TypeError
          else if cell sourceBoard tr tc \<noteq> None then Inr invalidMove
          else
            (let movedPiece = pieceToMove;
                 tb1 = setCell (setCell sourceBoard tr tc (Some movedPiece)) fr fc None
             in case promotionStep tr tc movedPiece tb1 of
                  Inl e \<Rightarrow> Inl e
                | Inr (tb3, scoreGain, leads) \<Rightarrow>
                    (case combinationStep tr tc forPlayerColor tb3 scoreGain of
                       (tb4, scoreGain') \<Rightarrow>
                         Inr \<lparr>tempBoard = Some tb4, aiScoreGain = Fin (of_nat scoreGain'),
                              leadsToChoiceForThisPlayer = leads\<rparr>)))"

subsection \<open>Notions used to state the properties\<close>

definition isInvalidMove :: "js_error + simResult \<Rightarrow> bool" where
  "isInvalidMove res =
     (case res of Inl e \<Rightarrow> False | Inr r \<Rightarrow> tempBoard r = None \<and> aiScoreGain r = NegInf)"

definition rowMajorLess :: "nat \<times> nat \<Rightarrow> nat \<times> nat \<Rightarrow> bool" where
  "rowMajorLess a b = (fst a < fst b \<or> (fst a = fst b \<and> snd a < snd b))"

definition squareNumber :: "board \<Rightarrow> nat \<times> nat \<Rightarrow> nat" where
  "squareNumber tb k = (case cell tb (fst k) (snd k) of None \<Rightarrow> 0 | Some pc \<Rightarrow> number pc)"

definition opposingSquares :: "board \<Rightarrow> color \<Rightarrow> pieceData list \<Rightarrow> (nat \<times> nat) set" where
  "opposingSquares tb col ps =
     {k. \<exists>q \<in> set ps. k = (pd_row q, pd_col q) \<and>
          (\<exists>pc. cell tb (pd_row q) (pd_col q) = Some pc \<and> color pc \<noteq> col)}"

definition comboCaptures :: "nat \<Rightarrow> nat \<Rightarrow> color \<Rightarrow> board \<Rightarrow> (nat \<times> nat) set" where
  "comboCaptures tr tc col tb =
     opposingSquares tb col (concat (checkCombinationsAroundPositionOnBoard tr tc tb col))"

definition homeRank :: "color \<Rightarrow> nat" where
  "homeRank c = (if c = White then 0 else 7)"

definition promotionMatches :: "board \<Rightarrow> piece \<Rightarrow> (nat \<times> nat) set" where
  "promotionMatches tb p =
     {(r, c). r < 8 \<and> c < 8 \<and> (\<exists>t. cell tb r c = Some t \<and> color t = opponent (color p) \<and>
        number t = number p \<and> \<not> promoted t)}"

definition movedBoard :: "board \<Rightarrow> nat \<Rightarrow> nat \<Rightarrow> nat \<Rightarrow> nat \<Rightarrow> piece \<Rightarrow> board" where
  "movedBoard b fr fc tr tc p = setCell (setCell b tr tc (Some p)) fr fc None"

definition promotedBoard :: "board \<Rightarrow> nat \<Rightarrow> nat \<Rightarrow> piece \<Rightarrow> board" where
  "promotedBoard tb tr tc p = setCell tb tr tc (Some (p\<lparr>promoted := True\<rparr>))"

text \<open>
  Connectivity as the specification words it: squares are adjacent when they differ and
  lie at most one row and one column apart, and a set of squares is connected when every
  member is reachable from every other through adjacent members.
\<close>

definition adjacent8 :: "int \<times> int \<Rightarrow> int \<times> int \<Rightarrow> bool" where
  "adjacent8 a b = (a \<noteq> b \<and> \<bar>fst a - fst b\<bar> \<le> 1 \<and> \<bar>snd a - snd b\<bar> \<le> 1)"

definition adjacencyOn :: "(int \<times> int) set \<Rightarrow> ((int \<times> int) \<times> (int \<times> int)) set" where
  "adjacencyOn S = {(a, b). a \<in> S \<and> b \<in> S \<and> adjacent8 a b}"

definition connectedSquares :: "(int \<times> int) set \<Rightarrow> bool" where
  "connectedSquares S = (\<forall>a \<in> S. \<forall>b \<in> S. (a, b) \<in> (adjacencyOn S)\<^sup>*)"

definition nbrs :: "int \<times> int \<Rightarrow> (int \<times> int) list \<Rightarrow> (int \<times> int) set" where
  "nbrs c ds = (\<lambda>d. (fst c + fst d, snd c + snd d)) ` set ds"

definition reachFrom :: "(int \<times> int) set \<Rightarrow> int \<times> int \<Rightarrow> (int \<times> int) set" where
  "reachFrom S s = {x. (s, x) \<in> (adjacencyOn S)\<^sup>*}"

definition pick :: "pieceData list \<Rightarrow> int \<Rightarrow> pieceData list" where
  "pick ps m = map (\<lambda>i. ps ! i) (filter (bit m) [0..<length ps])"

definition accepts :: "pieceData list \<Rightarrow> bool" where
  "accepts c = (2 \<le> length c \<and> length c \<le> 8 \<and>
      sum_list (map (\<lambda>pD. number (pd_piece pD)) c) = 10 \<and>
      list_ex (\<lambda>pD. color (pd_piece pD) = White) c \<and>
      list_ex (\<lambda>pD. color (pd_piece pD) \<noteq> White) c \<and> areConnectedOptimized c)"

definition validCombination :: "pieceData set \<Rightarrow> bool" where
  "validCombination S = (2 \<le> card S \<and> card S \<le> 8 \<and>
      (\<Sum>q \<in> S. number (pd_piece q)) = 10 \<and>
      (\<exists>q \<in> S. color (pd_piece q) = White) \<and> (\<exists>q \<in> S. color (pd_piece q) = Black) \<and>
      connectedSquares (pd_key ` S))"

definition windowRows :: "nat \<Rightarrow> nat list" where
  "windowRows r = [r - 3 ..< Suc (min 7 (r + 3))]"

definition inWindow :: "nat \<Rightarrow> nat \<Rightarrow> nat \<Rightarrow> nat \<Rightarrow> bool" where
  "inWindow r0 c0 r c = (r0 - 3 \<le> r \<and> r \<le> min 7 (r0 + 3) \<and> c0 - 3 \<le> c \<and> c \<le> min 7 (c0 + 3))"

definition squareKeyInt :: "nat \<times> nat \<Rightarrow> int \<times> int" where
  "squareKeyInt k = (int (fst k), int (snd k))"

definition pieceOn :: "nat \<times> nat \<Rightarrow> piece \<Rightarrow> pieceData" where
  "pieceOn k p = \<lparr>pd_row = fst k, pd_col = snd k, pd_piece = p\<rparr>"

subsection \<open>Concrete positions\<close>

definition emptyBoard :: board where
  "emptyBoard = replicate 8 (replicate 8 None)"

definition boardWith :: "((nat \<times> nat) \<times> piece) list \<Rightarrow> board" where
  "boardWith xs = fold (\<lambda>((r, c), p) b. setCell b r c (Some p)) xs emptyBoard"

definition mkPiece :: "color \<Rightarrow> nat \<Rightarrow> piece" where
  "mkPiece c n = \<lparr>color = c, number = n, promoted = False\<rparr>"

text \<open>
  A White 5 one step from its promotion rank, with an unpromoted Black 5 on the square
  straight ahead.
\<close>

definition promotionBoard :: board where
  "promotionBoard = boardWith [((1, 0), mkPiece White 5), ((0, 0), mkPiece Black 5)]"

text \<open>A lone White 5 on its starting rank, and the same position after one step ahead.\<close>

definition loneBoard :: board where
  "loneBoard = boardWith [((6, 0), mkPiece White 5)]"

definition loneBoardStepped :: board where
  "loneBoardStepped = boardWith [((5, 0), mkPiece White 5)]"

text \<open>The same square occupied by the same piece, promoted and not.\<close>

definition loneBoardPromoted :: board where
  "loneBoardPromoted = boardWith [((6, 0), (mkPiece White 5)\<lparr>promoted := True\<rparr>)]"

text \<open>
  The cluster of the specification's test: after White's 3 steps from (4,3) to (3,2) it
  stands beside a White 3 and a Black 4 on row 3.
\<close>

definition clusterBoard :: board where
  "clusterBoard = boardWith [((4, 3), mkPiece White 3), ((3, 3), mkPiece White 3),
                             ((3, 4), mkPiece Black 4)]"

definition clusterBoardMoved :: board where
  "clusterBoardMoved = boardWith [((3, 2), mkPiece White 3), ((3, 3), mkPiece White 3),
                                  ((3, 4), mkPiece Black 4)]"

definition clusterBoardAfter :: board where
  "clusterBoardAfter = boardWith [((3, 2), mkPiece White 3), ((3, 3), mkPiece White 3)]"

text \<open>
  A crowded position with the 32 pieces of a game but one (two of each number and colour,
  one Black 8 gone): Black on rows 1 and 2, White on rows 6 and 7, columns 0 to 6, a
  Black 5 on (3,3), a White 8 on (5,0) and a White 5 on (5,3) that can step to (4,3),
  under the Black 5.  After that step the window around (4,3) (rows 1 to 7, columns 0
  to 6) holds 31 pieces.
\<close>

definition crowdedBoard :: board where
  "crowdedBoard = boardWith
     ([((1, c), mkPiece Black (c + 1)). c \<leftarrow> [0..<7]] @
      [((2, c), mkPiece Black (if c < 4 then c + 1 else c + 2)). c \<leftarrow> [0..<7]] @
      [((3, 3), mkPiece Black 5)] @
      [((6, c), mkPiece White (if c < 4 then c + 1 else c + 2)). c \<leftarrow> [0..<7]] @
      [((7, c), mkPiece White (c + 1)). c \<leftarrow> [0..<7]] @
      [((5, 0), mkPiece White 8), ((5, 3), mkPiece White 5)])"

definition crowdedBoardMoved :: board where
  "crowdedBoardMoved = setCell (setCell crowdedBoard 4 3 (Some (mkPiece White 5))) 5 3 None"

section \<open>Zobrist hashing (zobrist.js)\<close>

text \<open>
  The table of 16 by 64 random 64-bit keys and the side-to-move key are drawn once when
  the module is loaded; they are parameters here.  \<open>table Z i s\<close> is
  \<^verbatim>\<open>ZOBRIST.table[i][s]\<close> for \<open>i < 16\<close> and \<open>s < 64\<close>, which is where the
  pieces of a well-formed board (numbers 1 to 8) and its squares lie.  The keys are
  non-negative BigInts below \<open>2^64\<close>, so \<^verbatim>\<open>^\<close> on them is the exclusive or of
  64-bit words.
\<close>

type_synonym hash = "64 word"

record zobrist =
  table :: "nat \<Rightarrow> nat \<Rightarrow> hash"
  blackToMove :: hash

definition getPieceIndex :: "piece \<Rightarrow> nat" where
  "getPieceIndex pc = (let base = (if color pc = White then 0 else 8) in base + number pc - 1)"

definition calculateZobristKey :: "zobrist \<Rightarrow> board \<Rightarrow> color \<Rightarrow> hash" where
  "calculateZobristKey Z b currentPlayer =
     (let hash = fold (\<lambda>r h. fold (\<lambda>c h.
                   case cell b r c of
                     None \<Rightarrow> h
                   | Some pc \<Rightarrow> h XOR table Z (getPieceIndex pc) (r * 8 + c)) [0..<8] h) [0..<8] 0
      in if currentPlayer = Black then hash XOR blackToMove Z else hash)"

text \<open>
  The incremental update written out at each of the three places that step to a child
  position (the root loop and both branches of \<^verbatim>\<open>alphaBetaSearch\<close>).
\<close>

definition nextHashOf :: "zobrist \<Rightarrow> hash \<Rightarrow> move \<Rightarrow> hash" where
  "nextHashOf Z currentHash m =
     ((currentHash XOR table Z (getPieceIndex (piece m)) (fromRow m * 8 + fromCol m))
        XOR table Z (getPieceIndex (piece m)) (toRow m * 8 + toCol m))
        XOR blackToMove Z"

definition erasePromotion :: "board \<Rightarrow> board" where
  "erasePromotion b = map (map (map_option (\<lambda>pc. pc\<lparr>promoted := False\<rparr>))) b"

definition squareKey :: "zobrist \<Rightarrow> board \<Rightarrow> nat \<times> nat \<Rightarrow> hash" where
  "squareKey Z b k =
     (case cell b (fst k) (snd k) of
        None \<Rightarrow> 0
      | Some pc \<Rightarrow> table Z (getPieceIndex pc) (fst k * 8 + snd k))"

definition xorAll :: "hash list \<Rightarrow> hash" where
  "xorAll hs = fold (\<lambda>x h. h XOR x) hs 0"

section \<open>Search engine (server.js)\<close>

subsection \<open>Game state and evaluation\<close>

text \<open>
  The fields of \<^verbatim>\<open>Check10Game\<close> that the search reads.  A child position is
  hydrated with the board the simulation returned, which is \<^verbatim>\<open>null\<close> for the
  invalid-move sentinel; the first read of a square of a \<^verbatim>\<open>null\<close> board raises a
  TypeError.
\<close>

record game =
  board :: "board option"
  currentPlayer :: color
  whiteScore :: jsnum
  blackScore :: jsnum
  gameOver :: bool

definition MAX_SEARCH_DEPTH :: nat where
  "MAX_SEARCH_DEPTH = 15"

definition AI_THINKING_TIME_MS :: int where
  "AI_THINKING_TIME_MS = 10000"

definition pieceValue :: "piece \<Rightarrow> nat \<Rightarrow> rat" where
  "pieceValue pc r =
     (if promoted pc then of_nat (number pc) * (1 / 2) else 0) +
     (if color pc = White then (7 - of_nat r) * (1 / 10) else of_nat r * (1 / 10))"

definition evaluateBoard :: "game \<Rightarrow> color \<Rightarrow> js_error + jsnum" where
  "evaluateBoard g aiRootColor =
     (let opponentColor = (if aiRootColor = White then Black else White);
          aiScore = (if aiRootColor = White then whiteScore g else blackScore g);
          opponentScore = (if opponentColor = White then whiteScore g else blackScore g);
          score = js_add (Fin 0) (js_sub aiScore opponentScore)
      in case board g of
           None \<Rightarrow> Inl TypeError
         | Some b \<Rightarrow>
             Inr (fold (\<lambda>r s. fold (\<lambda>c s.
                    case cell b r c of
                      None \<Rightarrow> s
                    | Some pc \<Rightarrow>
                        if color pc = aiRootColor then js_add s (Fin (pieceValue pc r))
                        else js_sub s (Fin (pieceValue pc r))) [0..<8] s) [0..<8] score))"

subsection \<open>Transposition table\<close>

datatype ttFlag = EXACT | LOWERBOUND | UPPERBOUND

text \<open>An entry \<^verbatim>\<open>{value, depth, flag}\<close> of the table.\<close>

record ttEntry =
  entryValue :: jsnum
  entryDepth :: nat
  entryFlag :: ttFlag

type_synonym ttable = "hash \<Rightarrow> ttEntry option"

text \<open>
  The lookup at the head of \<^verbatim>\<open>alphaBetaSearch\<close>: either the node returns the
  stored value at once, or it goes on with the window the entry may have tightened.
\<close>

datatype probe = Cutoff jsnum | Window jsnum jsnum

definition ttProbe :: "ttEntry option \<Rightarrow> nat \<Rightarrow> jsnum \<Rightarrow> jsnum \<Rightarrow> probe" where
  "ttProbe tableEntry depth alpha beta =
     (case tableEntry of
        None \<Rightarrow> Window alpha beta
      | Some e \<Rightarrow>
          if entryDepth e \<ge> depth then
            (if entryFlag e = EXACT then Cutoff (entryValue e)
             else
               let alpha' = (if entryFlag e = LOWERBOUND then js_max alpha (entryValue e) else alpha);
                   beta' = (if entryFlag e \<noteq> LOWERBOUND \<and> entryFlag e = UPPERBOUND
                            then js_min beta (entryValue e) else beta)
               in if js_ge alpha' beta' then Cutoff (entryValue e) else Window alpha' beta')
          else Window alpha beta)"

subsection \<open>Alpha-beta search\<close>

text \<open>\<^verbatim>\<open>childGame.hydrateFromServerState({board: tempBoard, ...})\<close>.\<close>

definition childOf :: "game \<Rightarrow> simResult \<Rightarrow> game" where
  "childOf g sim =
     \<lparr>board = tempBoard sim,
      currentPlayer = (if currentPlayer g = White then Black else White),
      whiteScore = js_add (whiteScore g) (if currentPlayer g = White then aiScoreGain sim else Fin 0),
      blackScore = js_add (blackScore g) (if currentPlayer g = Black then aiScoreGain sim else Fin 0),
      gameOver = False\<rparr>"

type_synonym searchResult = "js_error + jsnum \<times> ttable"

text \<open>
  The two loops over the moves of a node.  \<open>search\<close> is the recursive call one level
  down (with the other side maximizing); the state is
  \<open>(bestValue, alpha, beta, table)\<close>, and the \<^verbatim>\<open>break\<close> returns it early.
\<close>

fun maxLoop ::
  "zobrist \<Rightarrow> (game \<Rightarrow> jsnum \<Rightarrow> jsnum \<Rightarrow> hash \<Rightarrow> ttable \<Rightarrow> searchResult) \<Rightarrow> game \<Rightarrow> board \<Rightarrow> hash \<Rightarrow>
   move list \<Rightarrow> jsnum \<times> jsnum \<times> jsnum \<times> ttable \<Rightarrow> js_error + jsnum \<times> jsnum \<times> jsnum \<times> ttable" where
  "maxLoop Z search g b currentHash [] st = Inr st"
| "maxLoop Z search g b currentHash (m # ms) (bestValue, alpha, beta, tt) =
     (let nextHash = nextHashOf Z currentHash m
      in case simulateFullMove (fromRow m) (fromCol m) (toRow m) (toCol m) (currentPlayer g) b of
           Inl e \<Rightarrow> Inl e
         | Inr sim \<Rightarrow>
             (case search (childOf g sim) alpha beta nextHash tt of
                Inl e \<Rightarrow> Inl e
              | Inr (v, tt') \<Rightarrow>
                  let eval = js_add (aiScoreGain sim) v;
                      bestValue' = js_max bestValue eval;
                      alpha' = js_max alpha eval
                  in if js_le beta alpha' then Inr (bestValue', alpha', beta, tt')
                     else maxLoop Z search g b currentHash ms (bestValue', alpha', beta, tt')))"

fun minLoop ::
  "zobrist \<Rightarrow> (game \<Rightarrow> jsnum \<Rightarrow> jsnum \<Rightarrow> hash \<Rightarrow> ttable \<Rightarrow> searchResult) \<Rightarrow> game \<Rightarrow> board \<Rightarrow> hash \<Rightarrow>
   move list \<Rightarrow> jsnum \<times> jsnum \<times> jsnum \<times> ttable \<Rightarrow> js_error + jsnum \<times> jsnum \<times> jsnum \<times> ttable" where
  "minLoop Z search g b currentHash [] st = Inr st"
| "minLoop Z search g b currentHash (m # ms) (bestValue, alpha, beta, tt) =
     (let nextHash = nextHashOf Z currentHash m
      in case simulateFullMove (fromRow m) (fromCol m) (toRow m) (toCol m) (currentPlayer g) b of
           Inl e \<Rightarrow> Inl e
         | Inr sim \<Rightarrow>
             (case search (childOf g sim) alpha beta nextHash tt of
                Inl e \<Rightarrow> Inl e
              | Inr (v, tt') \<Rightarrow>
                  let eval = js_add (js_neg (aiScoreGain sim)) v;
                      bestValue' = js_min bestValue eval;
                      beta' = js_min beta eval
                  in if js_le beta' alpha then Inr (bestValue', alpha, beta', tt')
                     else minLoop Z search g b currentHash ms (bestValue', alpha, beta', tt')))"

fun alphaBetaSearch ::
  "zobrist \<Rightarrow> game \<Rightarrow> nat \<Rightarrow> jsnum \<Rightarrow> jsnum \<Rightarrow> bool \<Rightarrow> color \<Rightarrow> hash \<Rightarrow> ttable \<Rightarrow> searchResult" where
  "alphaBetaSearch Z g depth alpha beta isMaximizingPlayer aiRootColor currentHash tt =
     (let originalAlpha = alpha
      in case ttProbe (tt currentHash) depth alpha beta of
           Cutoff v \<Rightarrow> Inr (v, tt)
         | Window alpha1 beta1 \<Rightarrow>
             (case board g of
                None \<Rightarrow> Inl TypeError
              | Some b \<Rightarrow>
                  if depth = 0 \<or> gameOver g \<or> \<not> hasValidMoves b (currentPlayer g)
                  then (case evaluateBoard g aiRootColor of
                          Inl e \<Rightarrow> Inl e
                        | Inr v \<Rightarrow> Inr (v, tt))
                  else
                    (let possibleMoves = getAllPossibleMovesForPlayer b (currentPlayer g)
                     in case (if isMaximizingPlayer
                              then maxLoop Z
                                     (\<lambda>cg a b' h t.
                                        alphaBetaSearch Z cg (depth - 1) a b' False aiRootColor h t)
                                     g b currentHash possibleMoves (NegInf, alpha1, beta1, tt)
                              else minLoop Z
                                     (\<lambda>cg a b' h t.
                                        alphaBetaSearch Z cg (depth - 1) a b' True aiRootColor h t)
                                     g b currentHash possibleMoves (PosInf, alpha1, beta1, tt)) of
                          Inl e \<Rightarrow> Inl e
                        | Inr (bestValue, alpha2, beta2, tt') \<Rightarrow>
                            let flag = (if js_le bestValue originalAlpha then UPPERBOUND
                                        else if js_ge bestValue beta2 then LOWERBOUND
                                        else EXACT)
                            in Inr (bestValue,
                                    tt'(currentHash \<mapsto>
                                      \<lparr>entryValue = bestValue, entryDepth = depth,
                                       entryFlag = flag\<rparr>)))))"

declare alphaBetaSearch.simps [simp del]

subsection \<open>Iterative deepening\<close>

text \<open>
  \<^verbatim>\<open>Date.now()\<close> is the parameter \<open>clock\<close>: \<open>clock k\<close> is the \<open>k\<close>-th
  reading, \<open>clock 0\<close> being \<^verbatim>\<open>startTime\<close>; the loops pass the number of the next
  reading along.  \<^verbatim>\<open>Math.random()\<close> is the parameter \<open>u\<close>.
\<close>

definition sameSquares :: "move \<Rightarrow> move \<Rightarrow> bool" where
  "sameSquares bm m =
     (fromRow m = fromRow bm \<and> fromCol m = fromCol bm \<and> toRow m = toRow bm \<and> toCol m = toCol bm)"

fun findIndex :: "('a \<Rightarrow> bool) \<Rightarrow> 'a list \<Rightarrow> nat option" where
  "findIndex P [] = None"
| "findIndex P (x # xs) = (if P x then Some 0 else map_option Suc (findIndex P xs))"

text \<open>
  The move ordering at the head of each depth: \<^verbatim>\<open>bestMoveSoFar.fromRow\<close> raises a
  TypeError when \<^verbatim>\<open>bestMoveSoFar\<close> is \<^verbatim>\<open>null\<close> and the callback runs.
\<close>

definition prioritize :: "move list \<Rightarrow> move option \<Rightarrow> js_error + move list" where
  "prioritize possibleMoves bestMoveSoFar =
     (if possibleMoves = [] then Inr []
      else case bestMoveSoFar of
             None \<Rightarrow> Inl TypeError
           | Some bm \<Rightarrow>
               (case findIndex (sameSquares bm) possibleMoves of
                  None \<Rightarrow> Inr possibleMoves
                | Some i \<Rightarrow>
                    Inr (possibleMoves ! i # (take i possibleMoves @ drop (Suc i) possibleMoves))))"

datatype rootOutcome =
    TimedOut ttable
  | Completed nat "move option" jsnum ttable

text \<open>
  The loop over the root moves at one depth; the state is
  \<open>(next reading, currentBestMoveForDepth, bestValueForDepth, table)\<close>.
\<close>

fun rootLoop ::
  "zobrist \<Rightarrow> (nat \<Rightarrow> int) \<Rightarrow> game \<Rightarrow> board \<Rightarrow> nat \<Rightarrow> hash \<Rightarrow> move list \<Rightarrow>
   nat \<times> move option \<times> jsnum \<times> ttable \<Rightarrow> js_error + rootOutcome" where
  "rootLoop Z clock g b depth rootHash [] (k, currentBestMoveForDepth, bestValueForDepth, tt) =
     Inr (Completed k currentBestMoveForDepth bestValueForDepth tt)"
| "rootLoop Z clock g b depth rootHash (m # ms) (k, currentBestMoveForDepth, bestValueForDepth, tt) =
     (if clock k - clock 0 > AI_THINKING_TIME_MS then Inr (TimedOut tt)
      else
        let playerColor = currentPlayer g
        in case simulateFullMove (fromRow m) (fromCol m) (toRow m) (toCol m) playerColor b of
             Inl e \<Rightarrow> Inl e
           | Inr sim \<Rightarrow>
               (case (if leadsToChoiceForThisPlayer sim then Inr (aiScoreGain sim, tt)
                      else
                        (let nextHash = nextHashOf Z rootHash m
                         in case alphaBetaSearch Z (childOf g sim) (depth - 1) NegInf PosInf False
                                   playerColor nextHash tt of
                              Inl e \<Rightarrow> Inl e
                            | Inr (v, tt') \<Rightarrow> Inr (js_add (aiScoreGain sim) v, tt'))) of
                  Inl e \<Rightarrow> Inl e
                | Inr (moveValue, tt') \<Rightarrow>
                    if js_gt moveValue bestValueForDepth
                    then rootLoop Z clock g b depth rootHash ms (Suc k, Some m, moveValue, tt')
                    else rootLoop Z clock g b depth rootHash ms
                           (Suc k, currentBestMoveForDepth, bestValueForDepth, tt')))"

function depthLoop ::
  "zobrist \<Rightarrow> (nat \<Rightarrow> int) \<Rightarrow> game \<Rightarrow> board \<Rightarrow> move list \<Rightarrow> nat \<Rightarrow>
   nat \<times> move option \<times> ttable \<Rightarrow> js_error + move option \<times> ttable" where
  "depthLoop Z clock g b possibleMoves depth (k, bestMoveSoFar, tt) =
     (if depth \<le> MAX_SEARCH_DEPTH then
        (case prioritize possibleMoves bestMoveSoFar of
           Inl e \<Rightarrow> Inl e
         | Inr movesToSearch \<Rightarrow>
             (let rootHash = calculateZobristKey Z b (currentPlayer g)
              in case rootLoop Z clock g b depth rootHash movesToSearch (k, None, NegInf, tt) of
                   Inl e \<Rightarrow> Inl e
                 | Inr (TimedOut tt') \<Rightarrow> Inr (bestMoveSoFar, tt')
                 | Inr (Completed k' currentBestMoveForDepth bestValueForDepth tt') \<Rightarrow>
                     if clock k' - clock 0 > AI_THINKING_TIME_MS
                     then Inr (currentBestMoveForDepth, tt')
                     else depthLoop Z clock g b possibleMoves (depth + 1)
                            (Suc k', currentBestMoveForDepth, tt')))
      else Inr (bestMoveSoFar, tt))"
  by pat_completeness auto
termination
  by (relation "measure (\<lambda>(Z, clock, g, b, possibleMoves, depth, st). Suc MAX_SEARCH_DEPTH - depth)")
     auto

declare depthLoop.simps [simp del]

definition findBestMoveWithAlphaBeta ::
  "zobrist \<Rightarrow> (nat \<Rightarrow> int) \<Rightarrow> rat \<Rightarrow> game \<Rightarrow> ttable \<Rightarrow> js_error + move option \<times> ttable" where
  "findBestMoveWithAlphaBeta Z clock u g tt =
     (case board g of
        None \<Rightarrow> Inl TypeError
      | Some b \<Rightarrow>
          let playerColor = currentPlayer g;
              possibleMoves = getAllPossibleMovesForPlayer b playerColor
          in if possibleMoves = [] then Inr (None, tt)
             else
               let i = \<lfloor>u * of_nat (length possibleMoves)\<rfloor>;
                   bestMoveSoFar = (if 0 \<le> i \<and> i < int (length possibleMoves)
                                    then Some (possibleMoves ! nat i) else None)
               in depthLoop Z clock g b possibleMoves 1 (1, bestMoveSoFar, tt))"

subsection \<open>Well-formed search inputs\<close>

definition isFin :: "jsnum \<Rightarrow> bool" where
  "isFin v = (case v of Fin q \<Rightarrow> True | _ \<Rightarrow> False)"

text \<open>
  A game state as the data model has it: a board of eight rows of eight squares with
  piece numbers 1 to 8, and finite scores.
\<close>

definition wf_game :: "game \<Rightarrow> bool" where
  "wf_game g = ((case board g of None \<Rightarrow> False | Some b \<Rightarrow> wf_board b) \<and>
                isFin (whiteScore g) \<and> isFin (blackScore g))"

text \<open>Every value stored in the table is a finite number.\<close>

definition tt_ok :: "ttable \<Rightarrow> bool" where
  "tt_ok tt = (\<forall>h e. tt h = Some e \<longrightarrow> isFin (entryValue e))"

text \<open>
  The invariants of the search loops: a recursive call on a well-formed child returns a
  finite value, and the best move of the root loop is either still unset, with value
  -Infinity, or one of the moves under search, with a finite value.
\<close>

definition search_ok ::
  "(game \<Rightarrow> jsnum \<Rightarrow> jsnum \<Rightarrow> hash \<Rightarrow> ttable \<Rightarrow> searchResult) \<Rightarrow> bool" where
  "search_ok search = (\<forall>cg a b h t. wf_game cg \<and> tt_ok t \<longrightarrow>
       (\<exists>v t'. search cg a b h t = Inr (v, t') \<and> isFin v \<and> tt_ok t'))"

definition rootInv :: "move set \<Rightarrow> move option \<Rightarrow> jsnum \<Rightarrow> bool" where
  "rootInv M cur bv = ((cur = None \<and> bv = NegInf) \<or> (\<exists>m. cur = Some m \<and> m \<in> M \<and> isFin bv))"

text \<open>
  The flag of a stored entry as the specification words it: by the position of the
  node's value in the window the node was called with.
\<close>

definition specFlag :: "jsnum \<Rightarrow> jsnum \<Rightarrow> jsnum \<Rightarrow> ttFlag" where
  "specFlag v originalAlpha originalBeta =
     (if js_le v originalAlpha then UPPERBOUND
      else if js_ge v originalBeta then LOWERBOUND
      else EXACT)"

subsection \<open>Concrete search inputs\<close>

text \<open>
  A game on the one-piece board with White to move and no points scored, and a clock
  whose first reading after the start is already past the thinking time.
\<close>

definition loneGame :: game where
  "loneGame = \<lparr>board = Some loneBoard, currentPlayer = White, whiteScore = Fin 0,
                blackScore = Fin 0, gameOver = False\<rparr>"

definition expiredClock :: "nat \<Rightarrow> int" where
  "expiredClock k = (if k = 0 then 0 else AI_THINKING_TIME_MS + 1)"

text \<open>
  A White 5 one step from its promotion rank, with two unpromoted Black 5s far from it:
  either step of the White piece promotes it with a choice of capture.  The boards after
  the two steps have the first Black 5 in row-major order removed.
\<close>

definition choiceBoard :: board where
  "choiceBoard = boardWith [((1, 0), mkPiece White 5), ((5, 6), mkPiece Black 5),
                            ((5, 7), mkPiece Black 5)]"

definition choiceGame :: game where
  "choiceGame = \<lparr>board = Some choiceBoard, currentPlayer = White, whiteScore = Fin 0,
                  blackScore = Fin 0, gameOver = False\<rparr>"

definition choiceBoardLeft :: board where
  "choiceBoardLeft = boardWith [((0, 0), (mkPiece White 5)\<lparr>promoted := True\<rparr>),
                                ((5, 7), mkPiece Black 5)]"

definition choiceBoardRight :: board where
  "choiceBoardRight = boardWith [((0, 1), (mkPiece White 5)\<lparr>promoted := True\<rparr>),
                                 ((5, 7), mkPiece Black 5)]"

definition choiceMoveLeft :: move where
  "choiceMoveLeft = \<lparr>fromRow = 1, fromCol = 0, toRow = 0, toCol = 0, piece = mkPiece White 5\<rparr>"

definition choiceMoveRight :: move where
  "choiceMoveRight = \<lparr>fromRow = 1, fromCol = 0, toRow = 0, toCol = 1, piece = mkPiece White 5\<rparr>"

definition startClock :: "nat \<Rightarrow> int" where
  "startClock k = 0"

text \<open>The children of the two games after a step that gains 5 and 0 points.\<close>

definition choiceChild :: "board \<Rightarrow> game" where
  "choiceChild b = \<lparr>board = Some b, currentPlayer = Black, whiteScore = Fin 5,
                     blackScore = Fin 0, gameOver = False\<rparr>"

definition loneBoardSidestepped :: board where
  "loneBoardSidestepped = boardWith [((5, 1), mkPiece White 5)]"

definition loneChild :: "board \<Rightarrow> game" where
  "loneChild b = \<lparr>board = Some b, currentPlayer = Black, whiteScore = Fin 0,
                   blackScore = Fin 0, gameOver = False\<rparr>"

text \<open>
  The one-piece position sent without scores: \<^verbatim>\<open>hydrateFromServerState\<close> copies
  \<^verbatim>\<open>undefined\<close> into both score fields, and every sum or difference the search
  forms with such a score is NaN, so the two fields are NaN here.  The request passes the
  check of the endpoint, which looks at the board and the side to move only.  With it, a
  clock that runs out after the two root moves of depth 1 have been searched.
\<close>

definition scorelessGame :: game where
  "scorelessGame = \<lparr>board = Some loneBoard, currentPlayer = White, whiteScore = NaN,
                     blackScore = NaN, gameOver = False\<rparr>"

definition scorelessChild :: "board \<Rightarrow> game" where
  "scorelessChild b = \<lparr>board = Some b, currentPlayer = Black, whiteScore = NaN,
                        blackScore = NaN, gameOver = False\<rparr>"

definition lateClock :: "nat \<Rightarrow> int" where
  "lateClock k = (if k < 3 then 0 else AI_THINKING_TIME_MS + 1)"

definition loneMoveAhead :: move where
  "loneMoveAhead = \<lparr>fromRow = 6, fromCol = 0, toRow = 5, toCol = 0, piece = mkPiece White 5\<rparr>"

definition loneMoveAside :: move where
  "loneMoveAside = \<lparr>fromRow = 6, fromCol = 0, toRow = 5, toCol = 1, piece = mkPiece White 5\<rparr>"

section \<open>Boards as objects in a store\<close>

text \<open>
  The boards above are values.  In the source a board is an array object holding
  references to row arrays, which hold \<^verbatim>\<open>null\<close> or references to piece objects, and
  \<^verbatim>\<open>simulateFullMove\<close> writes to such objects.  A store keeps the three kinds of
  objects in three lists, an object's address being its index; a new object is appended.
\<close>

record heap =
  pieceObjs :: "piece list"
  rowObjs :: "nat option list list"
  boardObjs :: "nat list list"

definition allocPiece :: "piece \<Rightarrow> heap \<Rightarrow> nat \<times> heap" where
  "allocPiece p h = (length (pieceObjs h), h\<lparr>pieceObjs := pieceObjs h @ [p]\<rparr>)"

definition allocRow :: "nat option list \<Rightarrow> heap \<Rightarrow> nat \<times> heap" where
  "allocRow cells h = (length (rowObjs h), h\<lparr>rowObjs := rowObjs h @ [cells]\<rparr>)"

definition allocBoard :: "nat list \<Rightarrow> heap \<Rightarrow> nat \<times> heap" where
  "allocBoard rws h = (length (boardObjs h), h\<lparr>boardObjs := boardObjs h @ [rws]\<rparr>)"

text \<open>The board value that a board object holds.\<close>

definition readRow :: "heap \<Rightarrow> nat \<Rightarrow> piece option list" where
  "readRow h ra = map (map_option (\<lambda>a. pieceObjs h ! a)) (rowObjs h ! ra)"

definition readBoard :: "heap \<Rightarrow> nat \<Rightarrow> board" where
  "readBoard h ba = map (readRow h) (boardObjs h ! ba)"

text \<open>A board object all of whose references point into the store.\<close>

definition validBoard :: "heap \<Rightarrow> nat \<Rightarrow> bool" where
  "validBoard h ba =
     (ba < length (boardObjs h) \<and>
      list_all (\<lambda>ra. ra < length (rowObjs h) \<and>
                  list_all (\<lambda>x. case x of None \<Rightarrow> True | Some a \<Rightarrow> a < length (pieceObjs h))
                    (rowObjs h ! ra))
        (boardObjs h ! ba))"

text \<open>
  \<^verbatim>\<open>sourceBoard.map(r => r.map(p => (p ? { ...p } : null)))\<close>: a new piece object
  for every piece, a new row array for every row, a new board array.
\<close>

fun copyCells :: "nat option list \<Rightarrow> heap \<Rightarrow> nat option list \<times> heap" where
  "copyCells [] h = ([], h)"
| "copyCells (None # ps) h = (case copyCells ps h of (cells, h') \<Rightarrow> (None # cells, h'))"
| "copyCells (Some a # ps) h =
     (case allocPiece (pieceObjs h ! a) h of
        (a', h1) \<Rightarrow> (case copyCells ps h1 of (cells, h2) \<Rightarrow> (Some a' # cells, h2)))"

fun copyRows :: "nat list \<Rightarrow> heap \<Rightarrow> nat list \<times> heap" where
  "copyRows [] h = ([], h)"
| "copyRows (ra # ras) h =
     (case copyCells (rowObjs h ! ra) h of
        (cells, h1) \<Rightarrow>
          (case allocRow cells h1 of
             (ra', h2) \<Rightarrow> (case copyRows ras h2 of (rws, h3) \<Rightarrow> (ra' # rws, h3))))"

definition deepCopy :: "nat \<Rightarrow> heap \<Rightarrow> nat \<times> heap" where
  "deepCopy sourceBoard h =
     (case copyRows (boardObjs h ! sourceBoard) h of (rws, h1) \<Rightarrow> allocBoard rws h1)"

text \<open>
  \<^verbatim>\<open>board[r]?.[c]\<close> as a reference, \<^verbatim>\<open>board[r][c] = v\<close> for a row that the
  board has, and \<^verbatim>\<open>piece.promoted = true\<close>.
\<close>

definition cellRef :: "heap \<Rightarrow> nat \<Rightarrow> nat \<Rightarrow> nat \<Rightarrow> nat option" where
  "cellRef h ba r c =
     (let rws = boardObjs h ! ba
      in if r < length rws \<and> c < length (rowObjs h ! (rws ! r))
         then rowObjs h ! (rws ! r) ! c else None)"

definition writeCell :: "nat \<Rightarrow> nat \<Rightarrow> nat \<Rightarrow> nat option \<Rightarrow> heap \<Rightarrow> heap" where
  "writeCell ba r c v h =
     (let rws = boardObjs h ! ba
      in if r < length rws
         then h\<lparr>rowObjs := (rowObjs h)[rws ! r := js_set (rowObjs h ! (rws ! r)) c v]\<rparr>
         else h)"

definition setPromoted :: "nat \<Rightarrow> heap \<Rightarrow> heap" where
  "setPromoted a h = h\<lparr>pieceObjs := (pieceObjs h)[a := (pieceObjs h ! a)\<lparr>promoted := True\<rparr>]\<rparr>"

text \<open>
  The two capture loops \<^verbatim>\<open>tempBoard[r][c] = null\<close>; the squares are squares of
  pieces found on that board, so their rows exist.
\<close>

definition clearSquaresH :: "nat \<Rightarrow> (nat \<times> nat) list \<Rightarrow> heap \<Rightarrow> heap" where
  "clearSquaresH ba ks h = fold (\<lambda>(r, c) h'. writeCell ba r c None h') ks h"

text \<open>
  \<^verbatim>\<open>simulateFullMove\<close> on the store.  The result holds a reference to the board
  it built.  \<^verbatim>\<open>processPromotion\<close> and
  \<^verbatim>\<open>checkCombinationsAroundPositionOnBoard\<close> only read the board they are given, so
  they are run on its value; the writes are those of the source, in its order.
\<close>

record storedResult =
  tempBoardRef :: "nat option"
  aiScoreGainOf :: jsnum
  leadsToChoiceOf :: bool

definition invalidMoveH :: storedResult where
  "invalidMoveH = \<lparr>tempBoardRef = None, aiScoreGainOf = NegInf, leadsToChoiceOf = False\<rparr>"

definition promotionStepH ::
  "nat \<Rightarrow> nat \<Rightarrow> nat \<Rightarrow> nat \<Rightarrow> nat \<Rightarrow> nat \<Rightarrow> nat \<Rightarrow> heap \<Rightarrow> (js_error + nat \<times> bool) \<times> heap" where
  "promotionStepH fr fc tr tc movedPiece tempBoard' sourceBoard h =
     (let originalPieceFromSource = cellRef h sourceBoard fr fc;
          isPromotion = ((color (pieceObjs h ! movedPiece) = White \<and> tr = 0) \<or>
                         (color (pieceObjs h ! movedPiece) = Black \<and> tr = 7))
      in if isPromotion \<and>
            (case originalPieceFromSource of
               None \<Rightarrow> False
             | Some a \<Rightarrow> \<not> promoted (pieceObjs h ! a)) then
           (let h1 = setPromoted movedPiece h
            in case processPromotion tr tc (readBoard h1 tempBoard') of
                 Inl e \<Rightarrow> (Inl e, h1)
               | Inr promotionResult \<Rightarrow>
                   (Inr (points promotionResult, leadsToChoice promotionResult),
                    clearSquaresH tempBoard' (captures promotionResult) h1))
         else (Inr (0, False), h))"

definition combinationStepH :: "nat \<Rightarrow> nat \<Rightarrow> color \<Rightarrow> nat \<Rightarrow> nat \<Rightarrow> heap \<Rightarrow> nat \<times> heap" where
  "combinationStepH tr tc forPlayerColor tempBoard' scoreGain h =
     (let tb = readBoard h tempBoard';
          combinations = checkCombinationsAroundPositionOnBoard tr tc tb forPlayerColor
      in if combinations \<noteq> [] then
           (case collectCaptures tb forPlayerColor (concat combinations) (scoreGain, []) of
              (scoreGain', piecesToRemoveByCombination) \<Rightarrow>
                (scoreGain', clearSquaresH tempBoard' piecesToRemoveByCombination h))
         else (scoreGain, h))"

definition simulateFullMoveH ::
  "nat \<Rightarrow> nat \<Rightarrow> nat \<Rightarrow> nat \<Rightarrow> color \<Rightarrow> nat \<Rightarrow> heap \<Rightarrow> (js_error + storedResult) \<times> heap" where
  "simulateFullMoveH fr fc tr tc forPlayerColor sourceBoard h =
     (case deepCopy sourceBoard h of
        (tempBoard', h1) \<Rightarrow>
          (case cellRef h1 tempBoard' fr fc of
             None \<Rightarrow> (Inr invalidMoveH, h1)
           | Some pieceToMove \<Rightarrow>
               if color (pieceObjs h1 ! pieceToMove) \<noteq> forPlayerColor then (Inr invalidMoveH, h1)
               else
                 (case allocPiece (pieceObjs h1 ! pieceToMove) h1 of
                    (movedPiece, h2) \<Rightarrow>
                      if \<not> tr < length (boardObjs h2 ! tempBoard') then (Inl TypeError, h2)
                      else if cellRef h2 tempBoard' tr tc \<noteq> None then (Inr invalidMoveH, h2)
                      else
                        (let h3 = writeCell tempBoard' tr tc (Some movedPiece) h2;
                             h4 = writeCell tempBoard' fr fc None h3
                         in case promotionStepH fr fc tr tc movedPiece tempBoard' sourceBoard h4 of
                              (Inl e, h5) \<Rightarrow> (Inl e, h5)
                            | (Inr (scoreGain, leads), h5) \<Rightarrow>
                                (case combinationStepH tr tc forPlayerColor tempBoard' scoreGain h5 of
                                   (scoreGain', h6) \<Rightarrow>
                                     (Inr \<lparr>tempBoardRef = Some tempBoard',
                                           aiScoreGainOf = Fin (of_nat scoreGain'),
                                           leadsToChoiceOf = leads\<rparr>, h6))))))"

text \<open>
  Every object of \<open>h\<close> is in \<open>h'\<close>, at its address and with its contents; and the
  condition under which the writes of a simulation keep this: the board \<open>tb\<close> written
  to, and its rows, are objects that \<open>h0\<close> does not have.
\<close>

definition unchanged :: "heap \<Rightarrow> heap \<Rightarrow> bool" where
  "unchanged h h' =
     (prefix (pieceObjs h) (pieceObjs h') \<and> prefix (rowObjs h) (rowObjs h') \<and>
      prefix (boardObjs h) (boardObjs h'))"

definition freshBoard :: "heap \<Rightarrow> nat \<Rightarrow> heap \<Rightarrow> bool" where
  "freshBoard h0 tb h =
     (unchanged h0 h \<and> length (boardObjs h0) \<le> tb \<and> tb < length (boardObjs h) \<and>
      list_all (\<lambda>ra. length (rowObjs h0) \<le> ra \<and> ra < length (rowObjs h)) (boardObjs h ! tb))"

text \<open>
  A board object whose references point into the store and whose rows are different
  objects, as a deep copy is: a write to one of its squares changes that square only.
\<close>

definition ownBoard :: "heap \<Rightarrow> nat \<Rightarrow> bool" where
  "ownBoard h tb = (validBoard h tb \<and> distinct (boardObjs h ! tb))"

text \<open>The result of the simulation on the store, with the board it refers to read out.\<close>

definition readResult :: "heap \<Rightarrow> storedResult \<Rightarrow> simResult" where
  "readResult h res =
     \<lparr>tempBoard = map_option (readBoard h) (tempBoardRef res),
      aiScoreGain = aiScoreGainOf res,
      leadsToChoiceForThisPlayer = leadsToChoiceOf res\<rparr>"

text \<open>A store whose only board object, at address 0, holds \<open>choiceBoard\<close>.\<close>

definition choiceHeap :: heap where
  "choiceHeap =
     \<lparr>pieceObjs = [mkPiece White 5, mkPiece Black 5, mkPiece Black 5],
      rowObjs = [replicate 8 None, (replicate 8 None)[0 := Some 0], replicate 8 None,
                 replicate 8 None, replicate 8 None,
                 (replicate 8 None)[6 := Some 1, 7 := Some 2], replicate 8 None,
                 replicate 8 None],
      boardObjs = [[0, 1, 2, 3, 4, 5, 6, 7]]\<rparr>"

section \<open>Properties of the move simulation\<close>

lemma nth_js_set:
  "(if i < length (js_set xs c v) then js_set xs c v ! i else None) =
   (if i = c then v else if i < length xs then xs ! i else None)"
  by (auto simp: js_set_def nth_append nth_list_update)

lemma length_js_set: "length (js_set xs c v) = max (length xs) (Suc c)"
  by (auto simp: js_set_def)

lemma length_setCell [simp]: "length (setCell b r c v) = length b"
  by (simp add: setCell_def)

lemma cell_setCell:
  assumes "r < length b"
  shows "cell (setCell b r c v) r' c' = (if r' = r \<and> c' = c then v else cell b r' c')"
proof (cases "r' = r")
  case True
  have "cell (setCell b r c v) r c' =
        (if c' < length (js_set (b ! r) c v) then js_set (b ! r) c v ! c' else None)"
    using assms by (simp add: cell_def setCell_def)
  also have "\<dots> = (if c' = c then v else if c' < length (b ! r) then b ! r ! c' else None)"
    by (rule nth_js_set)
  also have "\<dots> = (if c' = c then v else cell b r c')"
    using assms by (simp add: cell_def)
  finally show ?thesis using True by simp
next
  case False
  then show ?thesis by (simp add: cell_def setCell_def)
qed

lemma cell_clearSquares:
  "\<forall>(r, c) \<in> set ks. r < length b \<Longrightarrow>
   cell (clearSquares ks b) r' c' = (if (r', c') \<in> set ks then None else cell b r' c')"
  unfolding clearSquares_def
proof (induction ks arbitrary: b)
  case Nil
  then show ?case by simp
next
  case (Cons k ks)
  obtain r c where k: "k = (r, c)" by (cases k)
  from Cons.prems k have r: "r < length b" by simp
  from Cons.prems have "\<forall>(r, c) \<in> set ks. r < length (setCell b r c None)" 
    by auto
  show ?case using Cons.IH[of "setCell b r c None"] Cons.prems r k by (auto simp: cell_setCell)
qed

lemma length_clearSquares [simp]: "length (clearSquares ks b) = length b"
  unfolding clearSquares_def by (induction ks arbitrary: b) (auto)

lemma wf_board_length: "wf_board b \<Longrightarrow> length b = 8"
  by (simp add: wf_board_def)

lemma wf_board_row: "wf_board b \<Longrightarrow> r < 8 \<Longrightarrow> length (b ! r) = 8"
  by (simp add: wf_board_def list_all_length)

lemma wf_board_cell: "wf_board b \<Longrightarrow> r < 8 \<Longrightarrow> c < 8 \<Longrightarrow> cell b r c = b ! r ! c"
  by (simp add: cell_def wf_board_length wf_board_row)

lemma wf_board_square: "wf_board b \<Longrightarrow> wf_square (cell b r c)"
  by (auto simp: cell_def wf_board_def list_all_length wf_square_def)

lemma cell_Some_range: "wf_board b \<Longrightarrow> cell b r c = Some p \<Longrightarrow> r < 8 \<and> c < 8"
  by (auto simp: cell_def wf_board_def list_all_length split: if_splits)

lemma wf_board_setCell:
  assumes "wf_board b" "r < 8" "c < 8" "wf_square v"
  shows "wf_board (setCell b r c v)"
proof -
  have "length (b ! r) = 8" using assms by (simp add: wf_board_row)
  then have js: "js_set (b ! r) c v = (b ! r)[c := v]" using assms by (simp add: js_set_def)
  have "list_all wf_square (b ! r)" using assms by (simp add: wf_board_def list_all_length)
  then have "list_all wf_square ((b ! r)[c := v])"
    using assms(4) by (auto simp: list_all_iff dest: set_update_subset_insert [THEN subsetD])
  then show ?thesis
    using assms by (auto simp: wf_board_def setCell_def js list_all_length nth_list_update)
qed

lemma wf_board_clearSquares:
  "wf_board b \<Longrightarrow> \<forall>(r, c) \<in> set ks. r < 8 \<and> c < 8 \<Longrightarrow> wf_board (clearSquares ks b)"
  unfolding clearSquares_def
proof (induction ks arbitrary: b)
  case Nil
  then show ?case by simp
next
  case (Cons k ks)
  obtain r c where k: "k = (r, c)" by (cases k)
  with Cons.prems have "wf_board (setCell b r c None)"
    by (intro wf_board_setCell) (auto simp: wf_square_def)
  with Cons.IH [of "setCell b r c None"] Cons.prems k show ?case by simp
qed

lemma stepTargets_props:
  assumes "(mr, mc) \<in> set (stepTargets b r c pcol)" "c < 8"
  shows "mr < 8 \<and> mc < 8 \<and> cell b mr mc = None \<and>
         (if pcol = White then Suc mr = r else mr = Suc r) \<and>
         (mc = c \<or> Suc mc = c \<or> mc = Suc c)"
  using assms
  by (auto simp: stepTargets_def Let_def split: if_splits)

lemma getValidMovesOnBoard_eq:
  "cell b r c = Some p \<Longrightarrow> getValidMovesOnBoard r c b (color p) = getValidMoves b r c"
  by (simp add: getValidMovesOnBoard_def getValidMoves_def)

lemma getAllPossibleMovesForPlayerOnBoard_eq:
  "getAllPossibleMovesForPlayerOnBoard col b = getAllPossibleMovesForPlayer b col"
  unfolding getAllPossibleMovesForPlayerOnBoard_def getAllPossibleMovesForPlayer_def
  by (intro arg_cong [where f = concat] map_cong refl)
     (auto simp: getValidMovesOnBoard_eq split: option.splits)

lemma moves_props:
  assumes "m \<in> set (getAllPossibleMovesForPlayer b col)"
  shows "fromRow m < 8 \<and> fromCol m < 8 \<and> cell b (fromRow m) (fromCol m) = Some (piece m) \<and>
         color (piece m) = col \<and> toRow m < 8 \<and> toCol m < 8 \<and>
         cell b (toRow m) (toCol m) = None \<and>
         (toRow m, toCol m) \<in> set (stepTargets b (fromRow m) (fromCol m) col)"
proof -
  from assms obtain r c p mr mc where
    r: "r < 8" and c: "c < 8" and p: "cell b r c = Some p" and col: "color p = col"
    and t: "(mr, mc) \<in> set (getValidMoves b r c)"
    and m: "m = \<lparr>fromRow = r, fromCol = c, toRow = mr, toCol = mc, piece = p\<rparr>"
    unfolding getAllPossibleMovesForPlayer_def
    by (auto split: option.splits if_splits)
  from t p col have t': "(mr, mc) \<in> set (stepTargets b r c col)"
    by (simp add: getValidMoves_def)
  from stepTargets_props [OF t' c] r c p col m t' show ?thesis by simp
qed

lemma matchingPieces_set:
  "set (matchingPieces b pc) =
   {(r, c). r < 8 \<and> c < 8 \<and> (\<exists>t. cell b r c = Some t \<and> color t = opponent (color pc) \<and>
      number t = number pc \<and> \<not> promoted t)}"
  unfolding matchingPieces_def
  apply (auto split: option.splits if_splits)
   apply metis
  apply force
  done

lemma processPromotion_Some:
  assumes "cell b r c = Some pc"
  shows "\<exists>pr. processPromotion r c b = Inr pr \<and> set (captures pr) \<subseteq> set (matchingPieces b pc)"
  using assms by (auto simp: processPromotion_def split: list.splits)

lemma promotionStep_wf:
  assumes wf: "wf_board tb" and tr: "tr < 8" and tc: "tc < 8" and mp: "wf_square (Some mp)"
  shows "\<exists>tb3 g l. promotionStep tr tc mp tb = Inr (tb3, g, l) \<and> wf_board tb3"
proof (cases "((color mp = White \<and> tr = 0) \<or> (color mp = Black \<and> tr = 7)) \<and> \<not> promoted mp")
  case False
  then show ?thesis using wf by (auto simp: promotionStep_def)
next
  case True
  define tb2 where "tb2 = setCell tb tr tc (Some (mp\<lparr>promoted := True\<rparr>))"
  have wf2: "wf_board tb2"
    unfolding tb2_def using wf tr tc mp by (intro wf_board_setCell) (auto simp: wf_square_def)
  have "cell tb2 tr tc = Some (mp\<lparr>promoted := True\<rparr>)"
    unfolding tb2_def using wf tr by (simp add: cell_setCell wf_board_length)
  from processPromotion_Some [OF this] obtain pr where
    pr: "processPromotion tr tc tb2 = Inr pr"
    and sub: "set (captures pr) \<subseteq> set (matchingPieces tb2 (mp\<lparr>promoted := True\<rparr>))" by blast
  from sub have "\<forall>(r, c) \<in> set (captures pr). r < 8 \<and> c < 8"
    by (auto simp: matchingPieces_set)
  then have "wf_board (clearSquares (captures pr) tb2)"
    by (rule wf_board_clearSquares [OF wf2])
  then show ?thesis using True pr by (simp add: promotionStep_def tb2_def Let_def)
qed

lemma collectCaptures_range:
  "wf_board tb \<Longrightarrow> \<forall>(r, c) \<in> set ks. r < 8 \<and> c < 8 \<Longrightarrow>
   collectCaptures tb col ps (g, ks) = (g', ks') \<Longrightarrow> \<forall>(r, c) \<in> set ks'. r < 8 \<and> c < 8"
proof (induction ps arbitrary: g ks)
  case Nil
  then show ?case by simp
next
  case (Cons pos rest)
  show ?case
  proof (cases "cell tb (pd_row pos) (pd_col pos)")
    case None
    with Cons show ?thesis by simp
  next
    case (Some pc)
    with Cons.prems(1) have rng: "pd_row pos < 8 \<and> pd_col pos < 8"
      by (auto dest: cell_Some_range)
    show ?thesis
    proof (cases "color pc \<noteq> col \<and> (pd_row pos, pd_col pos) \<notin> set ks")
      case True
      with Some Cons.prems(3) have
        "collectCaptures tb col rest (g + number pc, ks @ [(pd_row pos, pd_col pos)]) = (g', ks')"
        by simp
      moreover have "\<forall>(r, c) \<in> set (ks @ [(pd_row pos, pd_col pos)]). r < 8 \<and> c < 8"
        using Cons.prems(2) rng by auto
      ultimately show ?thesis using Cons.IH Cons.prems(1) by blast
    next
      case False
      with Some Cons.prems(3) have "collectCaptures tb col rest (g, ks) = (g', ks')"
        by auto
      then show ?thesis using Cons.IH Cons.prems(1,2) by blast
    qed
  qed
qed

lemma applyCombinations_wf:
  assumes "wf_board tb" "applyCombinations tb col combos g = (tb4, g')"
  shows "wf_board tb4"
proof (cases "combos = []")
  case True
  with assms show ?thesis by (simp add: applyCombinations_def)
next
  case False
  obtain g2 ks where c: "collectCaptures tb col (concat combos) (g, []) = (g2, ks)"
    by (cases "collectCaptures tb col (concat combos) (g, [])")
  from collectCaptures_range [OF assms(1) _ c] have "\<forall>(r, c) \<in> set ks. r < 8 \<and> c < 8" by simp
  from wf_board_clearSquares [OF assms(1) this] False c assms(2) show ?thesis
    by (simp add: applyCombinations_def)
qed

lemma combinationStep_wf:
  assumes "wf_board tb" "combinationStep tr tc col tb g = (tb4, g')"
  shows "wf_board tb4"
  using assms unfolding combinationStep_def by (rule applyCombinations_wf)

lemma simulateFullMove_valid:
  assumes wf: "wf_board b" and p: "cell b fr fc = Some p" and col: "color p = col"
    and tr: "tr < 8" and tc: "tc < 8" and dest: "cell b tr tc = None"
  shows "\<exists>r b' n. simulateFullMove fr fc tr tc col b = Inr r \<and> tempBoard r = Some b' \<and>
           wf_board b' \<and> aiScoreGain r = Fin (of_nat n)"
proof -
  from cell_Some_range [OF wf p] have fr: "fr < 8" and fc: "fc < 8" by simp_all
  define tb1 where "tb1 = setCell (setCell b tr tc (Some p)) fr fc None"
  have sq: "wf_square (Some p)" using wf_board_square [OF wf, of fr fc] p by simp
  have wf1: "wf_board tb1"
    unfolding tb1_def using wf tr tc fr fc sq
    by (intro wf_board_setCell) (auto simp: wf_square_def)
  from promotionStep_wf [OF wf1 tr tc sq] obtain tb3 g l where
    ps: "promotionStep tr tc p tb1 = Inr (tb3, g, l)" and wf3: "wf_board tb3" by blast
  obtain tb4 g' where cs: "combinationStep tr tc col tb3 g = (tb4, g')"
    by (cases "combinationStep tr tc col tb3 g")
  from combinationStep_wf [OF wf3 cs] have wf4: "wf_board tb4" .
  have "simulateFullMove fr fc tr tc col b =
     Inr \<lparr>tempBoard = Some tb4, aiScoreGain = Fin (of_nat g'), leadsToChoiceForThisPlayer = l\<rparr>"
    using p col tr dest wf ps cs
    by (simp add: simulateFullMove_def wf_board_length tb1_def Let_def)
  with wf4 show ?thesis by simp
qed


lemma scan_as_product:
  "concat (map (\<lambda>r. concat (map (\<lambda>c. f r c) cs)) rs) =
   concat (map (\<lambda>(r, c). f r c) (List.product rs cs))"
  by (induction rs) (simp_all add: comp_def)

lemma sorted_product:
  "sorted_wrt (<) rs \<Longrightarrow> sorted_wrt (<) cs \<Longrightarrow> sorted_wrt rowMajorLess (List.product rs cs)"
  by (induction rs) (auto simp: sorted_wrt_append sorted_wrt_map rowMajorLess_def)

lemma concat_singletons_filter:
  "concat (map (\<lambda>x. if P x then [x] else []) xs) = filter P xs"
  by (induction xs) simp_all

lemma matchingPieces_filter:
  "matchingPieces b pc =
   filter (\<lambda>(r, c). \<exists>t. cell b r c = Some t \<and> color t = opponent (color pc) \<and>
              number t = number pc \<and> \<not> promoted t)
     (List.product [0..<8] [0..<8])"
proof -
  have "matchingPieces b pc =
    concat (map (\<lambda>(r, c). case cell b r c of None \<Rightarrow> []
        | Some targetPiece \<Rightarrow>
            if color targetPiece = opponent (color pc) \<and> number targetPiece = number pc
               \<and> \<not> promoted targetPiece
            then [(r, c)] else []) (List.product [0..<8] [0..<8]))"
    unfolding matchingPieces_def by (rule scan_as_product)
  also have "\<dots> = concat (map (\<lambda>x. if (case x of (r, c) \<Rightarrow> \<exists>t. cell b r c = Some t \<and>
       color t = opponent (color pc) \<and> number t = number pc \<and> \<not> promoted t) then [x] else [])
       (List.product [0..<8] [0..<8]))"
    by (intro arg_cong [where f = concat] map_cong refl) (auto split: option.splits)
  finally show ?thesis by (simp only: concat_singletons_filter)
qed

lemma matchingPieces_sorted: "sorted_wrt rowMajorLess (matchingPieces b pc)"
  unfolding matchingPieces_filter
  by (intro sorted_wrt_filter sorted_product) simp_all

lemma rowMajorLess_irrefl: "\<not> rowMajorLess a a"
  by (simp add: rowMajorLess_def)

lemma matchingPieces_distinct: "distinct (matchingPieces b pc)"
  unfolding matchingPieces_filter
  by (intro distinct_filter distinct_product) simp_all

lemma matchingPieces_first:
  assumes "matchingPieces b pc = m # rest"
  shows "m \<in> set (matchingPieces b pc) \<and> (\<forall>k \<in> set (matchingPieces b pc). k = m \<or> rowMajorLess m k)"
  using matchingPieces_sorted [of b pc] assms by auto

lemma opposingSquares_Nil [simp]: "opposingSquares tb col [] = {}"
  by (simp add: opposingSquares_def)

lemma opposingSquares_Cons:
  "opposingSquares tb col (q # ps) =
     (case cell tb (pd_row q) (pd_col q) of
        None \<Rightarrow> opposingSquares tb col ps
      | Some pc \<Rightarrow> if color pc \<noteq> col then insert (pd_row q, pd_col q) (opposingSquares tb col ps)
                  else opposingSquares tb col ps)"
  by (auto simp: opposingSquares_def split: option.splits)

lemma collectCaptures_props:
  assumes "collectCaptures tb col ps (g, ks) = (g', ks')" and "distinct ks"
  shows "distinct ks' \<and> set ks' = set ks \<union> opposingSquares tb col ps \<and>
         g' + sum_list (map (squareNumber tb) ks) = g + sum_list (map (squareNumber tb) ks')"
  using assms
proof (induction ps arbitrary: g ks)
  case Nil
  then show ?case by simp
next
  case (Cons pos rest)
  show ?case
  proof (cases "cell tb (pd_row pos) (pd_col pos)")
    case None
    with Cons.prems have "collectCaptures tb col rest (g, ks) = (g', ks')" by simp
    from Cons.IH [OF this Cons.prems(2)] None show ?thesis
      by (simp add: opposingSquares_Cons)
  next
    case (Some pc)
    show ?thesis
    proof (cases "color pc \<noteq> col \<and> (pd_row pos, pd_col pos) \<notin> set ks")
      case True
      with Some Cons.prems(1) have c:
        "collectCaptures tb col rest (g + number pc, ks @ [(pd_row pos, pd_col pos)]) = (g', ks')"
        by simp
      have d: "distinct (ks @ [(pd_row pos, pd_col pos)])" using True Cons.prems(2) by simp
      have n: "squareNumber tb (pd_row pos, pd_col pos) = number pc"
        using Some by (simp add: squareNumber_def)
      from Cons.IH [OF c d] True Some n show ?thesis
        by (auto simp: opposingSquares_Cons)
    next
      case False
      with Some Cons.prems(1) have c: "collectCaptures tb col rest (g, ks) = (g', ks')"
        by auto
      from Cons.IH [OF c Cons.prems(2)] False Some show ?thesis
        by (auto simp: opposingSquares_Cons)
    qed
  qed
qed

lemma opposingSquares_range:
  "wf_board tb \<Longrightarrow> k \<in> opposingSquares tb col ps \<Longrightarrow> fst k < 8 \<and> snd k < 8"
  by (auto simp: opposingSquares_def dest: cell_Some_range)

lemma applyCombinations_props:
  assumes wf: "wf_board tb" and cs: "applyCombinations tb col combos g = (tb4, g')"
  shows "(\<forall>r c. cell tb4 r c =
            (if (r, c) \<in> opposingSquares tb col (concat combos) then None else cell tb r c)) \<and>
         g' = g + sum (squareNumber tb) (opposingSquares tb col (concat combos))"
proof (cases "combos = []")
  case True
  with cs show ?thesis by (simp add: applyCombinations_def)
next
  case False
  obtain g2 ks where c: "collectCaptures tb col (concat combos) (g, []) = (g2, ks)"
    by (cases "collectCaptures tb col (concat combos) (g, [])")
  from collectCaptures_props [OF c] have d: "distinct ks"
    and s: "set ks = opposingSquares tb col (concat combos)"
    and g2: "g2 = g + sum_list (map (squareNumber tb) ks)"
    by simp_all
  from False c cs have tb4: "tb4 = clearSquares ks tb" and g': "g' = g2"
    by (simp_all add: applyCombinations_def)
  have rng: "\<forall>(r, c) \<in> set ks. r < length tb"
    using opposingSquares_range [OF wf] s wf_board_length [OF wf]
    by fastforce
  have "sum_list (map (squareNumber tb) ks) = sum (squareNumber tb) (set ks)"
    using d by (simp add: sum_list_distinct_conv_sum_set)
  with g2 g' s cell_clearSquares [OF rng] tb4 show ?thesis by simp
qed

lemma combinationStep_props:
  assumes wf: "wf_board tb" and cs: "combinationStep tr tc col tb g = (tb4, g')"
  shows "(\<forall>r c. cell tb4 r c = (if (r, c) \<in> comboCaptures tr tc col tb then None else cell tb r c)) \<and>
         g' = g + sum (squareNumber tb) (comboCaptures tr tc col tb)"
  using applyCombinations_props [OF wf cs [unfolded combinationStep_def]]
  unfolding comboCaptures_def .

lemma isPromotion_homeRank:
  "((color p = White \<and> tr = 0) \<or> (color p = Black \<and> tr = 7)) \<longleftrightarrow> tr = homeRank (color p)"
  by (cases "color p") (auto simp: homeRank_def)

lemma promotionStep_not_triggered:
  "\<not> (tr = homeRank (color p) \<and> \<not> promoted p) \<Longrightarrow> promotionStep tr tc p tb = Inr (tb, 0, False)"
  unfolding promotionStep_def Let_def isPromotion_homeRank
  by (cases "tr = homeRank (color p)"; cases "promoted p") simp_all

lemma promotionStep_triggered:
  assumes wf: "wf_board tb" and tr: "tr < 8" and trig: "tr = homeRank (color p)" "\<not> promoted p"
  shows "\<exists>pr. processPromotion tr tc (promotedBoard tb tr tc p) = Inr pr \<and>
           promotionStep tr tc p tb =
             Inr (clearSquares (captures pr) (promotedBoard tb tr tc p), points pr, leadsToChoice pr) \<and>
           (promotionMatches (promotedBoard tb tr tc p) p = {} \<longrightarrow>
              pr = \<lparr>points = 0, leadsToChoice = False, captures = []\<rparr>) \<and>
           (card (promotionMatches (promotedBoard tb tr tc p) p) = 1 \<longrightarrow>
              (\<exists>m. promotionMatches (promotedBoard tb tr tc p) p = {m} \<and>
                 pr = \<lparr>points = number p, leadsToChoice = False, captures = [m]\<rparr>)) \<and>
           (2 \<le> card (promotionMatches (promotedBoard tb tr tc p) p) \<longrightarrow>
              (\<exists>m \<in> promotionMatches (promotedBoard tb tr tc p) p.
                 (\<forall>k \<in> promotionMatches (promotedBoard tb tr tc p) p. k = m \<or> rowMajorLess m k) \<and>
                 pr = \<lparr>points = number p, leadsToChoice = True, captures = [m]\<rparr>))"
proof -
  define tb2 where "tb2 = promotedBoard tb tr tc p"
  define p' where "p' = p\<lparr>promoted := True\<rparr>"
  define ms where "ms = matchingPieces tb2 p'"
  have c: "cell tb2 tr tc = Some p'"
    unfolding tb2_def p'_def promotedBoard_def using wf tr
    by (simp add: cell_setCell wf_board_length)
  have M: "promotionMatches tb2 p = set ms"
    unfolding ms_def matchingPieces_set promotionMatches_def p'_def by simp
  have d: "distinct ms" unfolding ms_def by (rule matchingPieces_distinct)
  then have card: "card (set ms) = length ms" by (rule distinct_card)
  have step: "promotionStep tr tc p tb =
      (case processPromotion tr tc tb2 of Inl e \<Rightarrow> Inl e
       | Inr pr \<Rightarrow> Inr (clearSquares (captures pr) tb2, points pr, leadsToChoice pr))"
    using trig unfolding promotionStep_def Let_def isPromotion_homeRank tb2_def promotedBoard_def
    by simp
  have num: "number p' = number p" by (simp add: p'_def)
  show ?thesis
  proof (cases ms)
    case Nil
    then have "processPromotion tr tc tb2 = Inr \<lparr>points = 0, leadsToChoice = False, captures = []\<rparr>"
      using c by (simp add: processPromotion_def ms_def [symmetric])
    with step Nil M card show ?thesis unfolding tb2_def [symmetric] by simp
  next
    case (Cons m rest)
    show ?thesis
    proof (cases rest)
      case Nil
      with Cons have "processPromotion tr tc tb2 =
          Inr \<lparr>points = number p, leadsToChoice = False, captures = [m]\<rparr>"
        using c num by (simp add: processPromotion_def ms_def [symmetric])
      with step Nil Cons M card show ?thesis unfolding tb2_def [symmetric] by simp
    next
      case (Cons m' rest')
      with \<open>ms = m # rest\<close> have pp: "processPromotion tr tc tb2 =
          Inr \<lparr>points = number p, leadsToChoice = True, captures = [m]\<rparr>"
        using c num by (simp add: processPromotion_def ms_def [symmetric])
      from matchingPieces_first [of tb2 p' m rest] \<open>ms = m # rest\<close>
      have "m \<in> set ms \<and> (\<forall>k \<in> set ms. k = m \<or> rowMajorLess m k)"
        by (simp add: ms_def)
      with pp step Cons \<open>ms = m # rest\<close> M card show ?thesis
        unfolding tb2_def [symmetric] by auto
    qed
  qed
qed

lemma opponent_neq [simp]: "opponent c \<noteq> c" "c \<noteq> opponent c"
  by (cases c; simp add: opponent_def)+

lemma comboCaptures_color:
  "cell tb r c = Some q \<Longrightarrow> color q = col \<Longrightarrow> (r, c) \<notin> comboCaptures tr tc col tb"
  by (auto simp: comboCaptures_def opposingSquares_def)

lemma comboCaptures_None:
  "cell tb r c = None \<Longrightarrow> (r, c) \<notin> comboCaptures tr tc col tb"
  by (auto simp: comboCaptures_def opposingSquares_def)

lemma clearSquares_single: "clearSquares [m] tb = setCell tb (fst m) (snd m) None"
  by (cases m) (simp add: clearSquares_def)

lemma clearSquares_Nil [simp]: "clearSquares [] tb = tb"
  by (simp add: clearSquares_def)

section \<open>Claims about the move simulation\<close>

text \<open>
  Claim C5.  On a board of eight rows of eight squares, for all coordinates and every mover
  colour, \<open>simulateFullMove\<close> returns the invalid-move sentinel (no board, score gain
  \<open>-\<infinity>\<close>) exactly when the origin square holds no piece (or lies off the board), holds
  a piece of the other colour, or the destination square is occupied; and no move that the
  move generator produces for that colour on that board is answered with the sentinel.
\<close>

theorem simulateFullMove_invalid_iff:
  assumes "wf_board b"
  shows "(isInvalidMove (simulateFullMove fr fc tr tc col b) \<longleftrightarrow>
            (cell b fr fc = None \<or> (\<exists>p. cell b fr fc = Some p \<and> color p \<noteq> col) \<or>
             cell b tr tc \<noteq> None)) \<and>
         (\<forall>m \<in> set (getAllPossibleMovesForPlayerOnBoard col b).
            \<not> isInvalidMove (simulateFullMove (fromRow m) (fromCol m) (toRow m) (toCol m) col b))"
proof
  show "isInvalidMove (simulateFullMove fr fc tr tc col b) \<longleftrightarrow>
            (cell b fr fc = None \<or> (\<exists>p. cell b fr fc = Some p \<and> color p \<noteq> col) \<or>
             cell b tr tc \<noteq> None)"
  proof (cases "cell b fr fc")
    case None
    then show ?thesis by (simp add: simulateFullMove_def isInvalidMove_def invalidMove_def)
  next
    case (Some p)
    show ?thesis
    proof (cases "color p \<noteq> col")
      case True
      with Some show ?thesis by (simp add: simulateFullMove_def isInvalidMove_def invalidMove_def)
    next
      case same: False
      show ?thesis
      proof (cases "tr < length b")
        case False
        then have "cell b tr tc = None" by (simp add: cell_def)
        with Some same False show ?thesis
          by (simp add: simulateFullMove_def isInvalidMove_def)
      next
        case True
        show ?thesis
        proof (cases "cell b tr tc")
          case (Some q)
          with \<open>cell b fr fc = Some p\<close> same True show ?thesis
            by (simp add: simulateFullMove_def isInvalidMove_def invalidMove_def)
        next
          case None
          with \<open>cell b fr fc = Some p\<close> same True show ?thesis
            by (auto simp: simulateFullMove_def isInvalidMove_def Let_def
                split: sum.splits prod.splits)
        qed
      qed
    qed
  qed
next
  show "\<forall>m \<in> set (getAllPossibleMovesForPlayerOnBoard col b).
            \<not> isInvalidMove (simulateFullMove (fromRow m) (fromCol m) (toRow m) (toCol m) col b)"
  proof
    fix m assume "m \<in> set (getAllPossibleMovesForPlayerOnBoard col b)"
    then have "m \<in> set (getAllPossibleMovesForPlayer b col)"
      by (simp add: getAllPossibleMovesForPlayerOnBoard_eq)
    from moves_props [OF this] simulateFullMove_valid [OF assms, of "fromRow m" "fromCol m" "piece m" col "toRow m" "toCol m"]
    show "\<not> isInvalidMove (simulateFullMove (fromRow m) (fromCol m) (toRow m) (toCol m) col b)"
      by (auto simp: isInvalidMove_def)
  qed
qed

theorem simulateFullMove_invalid_iff_witness:
  "wf_board promotionBoard \<and>
   isInvalidMove (simulateFullMove 1 0 0 0 White promotionBoard) \<and>
   \<lparr>fromRow = 1, fromCol = 0, toRow = 0, toCol = 1, piece = mkPiece White 5\<rparr>
      \<in> set (getAllPossibleMovesForPlayerOnBoard White promotionBoard) \<and>
   \<not> isInvalidMove (simulateFullMove 1 0 0 1 White promotionBoard)"
proof -
  have wf: "wf_board promotionBoard" by code_simp
  have occ: "cell promotionBoard 0 0 \<noteq> None" by code_simp
  have mem: "\<lparr>fromRow = 1, fromCol = 0, toRow = 0, toCol = 1, piece = mkPiece White 5\<rparr>
      \<in> set (getAllPossibleMovesForPlayerOnBoard White promotionBoard)" by code_simp
  from simulateFullMove_invalid_iff [OF wf, of 1 0 0 0 White] occ
  have inv: "isInvalidMove (simulateFullMove 1 0 0 0 White promotionBoard)" by simp
  from simulateFullMove_invalid_iff [OF wf, of 1 0 0 0 White] mem
  have "\<not> isInvalidMove (simulateFullMove 1 0 0 1 White promotionBoard)" by fastforce
  with wf inv mem show ?thesis by simp
qed

text \<open>
  Claim C4.  A legal step of a piece \<open>p\<close> runs the promotion block and then the
  combination block.  When \<open>p\<close> is not yet promoted and ends on its home promotion rank,
  the piece on the destination square of the result is \<open>p\<close> marked promoted, and with
  \<open>M\<close> the squares of the post-move board that hold an opposing, unpromoted piece of the
  same number: no match gives 0 points, no capture and no choice flag; exactly one match is
  captured for \<open>number p\<close> points without the flag; two or more matches capture the
  first one in row-major order for \<open>number p\<close> points and raise the flag.  Otherwise
  the promotion block leaves the board, the score and the flag as they are.
\<close>

theorem simulateFullMove_promotion:
  assumes wf: "wf_board b" and p: "cell b fr fc = Some p" and col: "color p = col"
    and tr: "tr < 8" and tc: "tc < 8" and dest: "cell b tr tc = None"
  shows "\<exists>tb3 pts lead final gain.
      promotionStep tr tc p (movedBoard b fr fc tr tc p) = Inr (tb3, pts, lead) \<and>
      combinationStep tr tc col tb3 pts = (final, gain) \<and>
      simulateFullMove fr fc tr tc col b =
        Inr \<lparr>tempBoard = Some final, aiScoreGain = Fin (of_nat gain),
             leadsToChoiceForThisPlayer = lead\<rparr> \<and>
      pts \<le> gain \<and>
      (if tr = homeRank col \<and> \<not> promoted p then
         cell final tr tc = Some (p\<lparr>promoted := True\<rparr>) \<and>
         (promotionMatches (promotedBoard (movedBoard b fr fc tr tc p) tr tc p) p = {} \<longrightarrow>
            pts = 0 \<and> \<not> lead \<and> tb3 = promotedBoard (movedBoard b fr fc tr tc p) tr tc p) \<and>
         (card (promotionMatches (promotedBoard (movedBoard b fr fc tr tc p) tr tc p) p) = 1 \<longrightarrow>
            pts = number p \<and> \<not> lead \<and>
            (\<exists>m. promotionMatches (promotedBoard (movedBoard b fr fc tr tc p) tr tc p) p = {m} \<and>
               tb3 = setCell (promotedBoard (movedBoard b fr fc tr tc p) tr tc p) (fst m) (snd m) None \<and>
               cell final (fst m) (snd m) = None)) \<and>
         (2 \<le> card (promotionMatches (promotedBoard (movedBoard b fr fc tr tc p) tr tc p) p) \<longrightarrow>
            pts = number p \<and> lead \<and>
            (\<exists>m \<in> promotionMatches (promotedBoard (movedBoard b fr fc tr tc p) tr tc p) p.
               (\<forall>k \<in> promotionMatches (promotedBoard (movedBoard b fr fc tr tc p) tr tc p) p.
                  k = m \<or> rowMajorLess m k) \<and>
               tb3 = setCell (promotedBoard (movedBoard b fr fc tr tc p) tr tc p) (fst m) (snd m) None \<and>
               cell final (fst m) (snd m) = None))
       else tb3 = movedBoard b fr fc tr tc p \<and> pts = 0 \<and> \<not> lead \<and> cell final tr tc = Some p)"
    (is "\<exists>tb3 pts lead final gain. ?P tb3 pts lead final gain")
proof -
  from cell_Some_range [OF wf p] have fr: "fr < 8" and fc: "fc < 8" by simp_all
  define tb1 where "tb1 = movedBoard b fr fc tr tc p"
  define tb2 where "tb2 = promotedBoard tb1 tr tc p"
  define M where "M = promotionMatches tb2 p"
  have sq: "wf_square (Some p)" using wf_board_square [OF wf, of fr fc] p by simp
  have ne: "(fr, fc) \<noteq> (tr, tc)" using p dest by auto
  have wf1: "wf_board tb1"
    unfolding tb1_def movedBoard_def using wf tr tc fr fc sq
    by (intro wf_board_setCell) (auto simp: wf_square_def)
  have c1: "cell tb1 tr tc = Some p"
    unfolding tb1_def movedBoard_def using wf tr fr ne
    by (auto simp: cell_setCell wf_board_length)
  have wf2: "wf_board tb2"
    unfolding tb2_def promotedBoard_def using wf1 tr tc sq
    by (intro wf_board_setCell) (auto simp: wf_square_def)
  have c2: "cell tb2 tr tc = Some (p\<lparr>promoted := True\<rparr>)"
    unfolding tb2_def promotedBoard_def using wf1 tr by (simp add: cell_setCell wf_board_length)
  have notM: "(tr, tc) \<notin> M"
    unfolding M_def promotionMatches_def using c2 by auto
  have Mrng: "\<And>m. m \<in> M \<Longrightarrow> fst m < 8 \<and> snd m < 8"
    unfolding M_def promotionMatches_def by auto
  have sim: "\<And>tb3 pts lead. promotionStep tr tc p tb1 = Inr (tb3, pts, lead) \<Longrightarrow>
     simulateFullMove fr fc tr tc col b =
        Inr \<lparr>tempBoard = Some (fst (combinationStep tr tc col tb3 pts)),
             aiScoreGain = Fin (of_nat (snd (combinationStep tr tc col tb3 pts))),
             leadsToChoiceForThisPlayer = lead\<rparr>"
    using p col tr dest wf
    by (simp add: simulateFullMove_def wf_board_length tb1_def movedBoard_def Let_def
        split: prod.splits)
  have fin: "\<And>tb3 pts. wf_board tb3 \<Longrightarrow>
      (\<forall>r c. cell (fst (combinationStep tr tc col tb3 pts)) r c =
         (if (r, c) \<in> comboCaptures tr tc col tb3 then None else cell tb3 r c)) \<and>
      pts \<le> snd (combinationStep tr tc col tb3 pts)"
  proof -
    fix tb3 pts assume w: "wf_board tb3"
    obtain f g where fg: "combinationStep tr tc col tb3 pts = (f, g)"
      by (cases "combinationStep tr tc col tb3 pts")
    from combinationStep_props [OF w fg] fg
    show "(\<forall>r c. cell (fst (combinationStep tr tc col tb3 pts)) r c =
         (if (r, c) \<in> comboCaptures tr tc col tb3 then None else cell tb3 r c)) \<and>
      pts \<le> snd (combinationStep tr tc col tb3 pts)" by simp
  qed
  show ?thesis
  proof (cases "tr = homeRank col \<and> \<not> promoted p")
    case False
    then have ps: "promotionStep tr tc p tb1 = Inr (tb1, 0, False)"
      using col by (intro promotionStep_not_triggered) simp
    from fin [OF wf1, of 0] c1 col
    have "cell (fst (combinationStep tr tc col tb1 0)) tr tc = Some p"
      by (simp add: comboCaptures_color)
    with ps sim [OF ps]
    have "?P tb1 0 False (fst (combinationStep tr tc col tb1 0))
            (snd (combinationStep tr tc col tb1 0))"
      unfolding tb1_def [symmetric] if_not_P [OF False] by simp
    then show ?thesis by (intro exI)
  next
    case True
    then have trig: "tr = homeRank (color p)" "\<not> promoted p" using col by simp_all
    from promotionStep_triggered [OF wf1 tr trig, of tc]
    obtain pr where pp: "processPromotion tr tc tb2 = Inr pr"
      and ps: "promotionStep tr tc p tb1 = Inr (clearSquares (captures pr) tb2, points pr, leadsToChoice pr)"
      and m0: "M = {} \<longrightarrow> pr = \<lparr>points = 0, leadsToChoice = False, captures = []\<rparr>"
      and m1: "card M = 1 \<longrightarrow> (\<exists>m. M = {m} \<and>
                 pr = \<lparr>points = number p, leadsToChoice = False, captures = [m]\<rparr>)"
      and m2: "2 \<le> card M \<longrightarrow> (\<exists>m \<in> M. (\<forall>k \<in> M. k = m \<or> rowMajorLess m k) \<and>
                 pr = \<lparr>points = number p, leadsToChoice = True, captures = [m]\<rparr>)"
      unfolding tb2_def M_def by blast
    define tb3 where "tb3 = clearSquares (captures pr) tb2"
    have capsM: "set (captures pr) \<subseteq> M"
      using processPromotion_Some [OF c2] pp
      by (auto simp: M_def promotionMatches_def matchingPieces_set)
    then have caprng: "\<forall>(r, c) \<in> set (captures pr). r < 8 \<and> c < 8"
      using Mrng by fastforce
    have wf3: "wf_board tb3"
      unfolding tb3_def by (rule wf_board_clearSquares [OF wf2 caprng])
    have caprng': "\<forall>(r, c) \<in> set (captures pr). r < length tb2"
      using caprng wf_board_length [OF wf2] by auto
    have c3: "\<And>r c. cell tb3 r c = (if (r, c) \<in> set (captures pr) then None else cell tb2 r c)"
      unfolding tb3_def by (rule cell_clearSquares [OF caprng'])
    have c3d: "cell tb3 tr tc = Some (p\<lparr>promoted := True\<rparr>)"
      using c3 [of tr tc] c2 capsM notM by auto
    define final where "final = fst (combinationStep tr tc col tb3 (points pr))"
    define gain where "gain = snd (combinationStep tr tc col tb3 (points pr))"
    from fin [OF wf3, of "points pr"]
    have cf: "\<And>r c. cell final r c =
         (if (r, c) \<in> comboCaptures tr tc col tb3 then None else cell tb3 r c)"
      and ge: "points pr \<le> gain"
      unfolding final_def gain_def by simp_all
    have cfd: "cell final tr tc = Some (p\<lparr>promoted := True\<rparr>)"
      using cf [of tr tc] c3d col by (simp add: comboCaptures_color)
    have capt: "\<And>m. m \<in> set (captures pr) \<Longrightarrow> cell final (fst m) (snd m) = None"
      using cf c3 by simp
    have r0: "M = {} \<longrightarrow> points pr = 0 \<and> \<not> leadsToChoice pr \<and> tb3 = tb2"
      using m0 by (auto simp: tb3_def)
    have r1: "card M = 1 \<longrightarrow> points pr = number p \<and> \<not> leadsToChoice pr \<and>
            (\<exists>m. M = {m} \<and> tb3 = setCell tb2 (fst m) (snd m) None \<and>
               cell final (fst m) (snd m) = None)"
    proof
      assume "card M = 1"
      with m1 obtain m where "M = {m}"
        "pr = \<lparr>points = number p, leadsToChoice = False, captures = [m]\<rparr>" by blast
      with capt [of m] show "points pr = number p \<and> \<not> leadsToChoice pr \<and>
            (\<exists>m. M = {m} \<and> tb3 = setCell tb2 (fst m) (snd m) None \<and>
               cell final (fst m) (snd m) = None)"
        by (auto simp: tb3_def clearSquares_single)
    qed
    have r2: "2 \<le> card M \<longrightarrow> points pr = number p \<and> leadsToChoice pr \<and>
            (\<exists>m \<in> M. (\<forall>k \<in> M. k = m \<or> rowMajorLess m k) \<and>
               tb3 = setCell tb2 (fst m) (snd m) None \<and> cell final (fst m) (snd m) = None)"
    proof
      assume "2 \<le> card M"
      with m2 obtain m where "m \<in> M" "\<forall>k \<in> M. k = m \<or> rowMajorLess m k"
        "pr = \<lparr>points = number p, leadsToChoice = True, captures = [m]\<rparr>" by blast
      with capt [of m] show "points pr = number p \<and> leadsToChoice pr \<and>
            (\<exists>m \<in> M. (\<forall>k \<in> M. k = m \<or> rowMajorLess m k) \<and>
               tb3 = setCell tb2 (fst m) (snd m) None \<and> cell final (fst m) (snd m) = None)"
        by (auto simp: tb3_def clearSquares_single)
    qed
    have cs: "combinationStep tr tc col tb3 (points pr) = (final, gain)"
      by (simp add: final_def gain_def)
    from sim [OF ps] have sm: "simulateFullMove fr fc tr tc col b =
        Inr \<lparr>tempBoard = Some final, aiScoreGain = Fin (of_nat gain),
             leadsToChoiceForThisPlayer = leadsToChoice pr\<rparr>"
      by (simp add: final_def gain_def tb3_def)
    from ps have ps': "promotionStep tr tc p tb1 = Inr (tb3, points pr, leadsToChoice pr)"
      by (simp add: tb3_def)
    have "?P tb3 (points pr) (leadsToChoice pr) final gain"
      unfolding tb1_def [symmetric] tb2_def [symmetric] M_def [symmetric] if_P [OF True]
      using ps' cs sm ge cfd r0 r1 r2 by simp
    then show ?thesis by (intro exI)
  qed
qed

theorem simulateFullMove_promotion_witness:
  "wf_board promotionBoard \<and> cell promotionBoard 1 0 = Some (mkPiece White 5) \<and>
   cell promotionBoard 0 1 = None \<and> 0 = homeRank White \<and> \<not> promoted (mkPiece White 5) \<and>
   (\<exists>tb3 pts lead final gain.
      promotionStep 0 1 (mkPiece White 5) (movedBoard promotionBoard 1 0 0 1 (mkPiece White 5))
        = Inr (tb3, pts, lead) \<and>
      combinationStep 0 1 White tb3 pts = (final, gain) \<and>
      simulateFullMove 1 0 0 1 White promotionBoard =
        Inr \<lparr>tempBoard = Some final, aiScoreGain = Fin (of_nat gain),
             leadsToChoiceForThisPlayer = lead\<rparr> \<and>
      pts \<le> gain \<and> cell final 0 1 = Some (mkPiece White 5\<lparr>promoted := True\<rparr>))"
proof -
  have wf: "wf_board promotionBoard" by code_simp
  have p: "cell promotionBoard 1 0 = Some (mkPiece White 5)" by code_simp
  have col: "color (mkPiece White 5) = White" by code_simp
  have dest: "cell promotionBoard 0 1 = None" by code_simp
  have trig: "0 = homeRank White \<and> \<not> promoted (mkPiece White 5)" by code_simp
  have tr: "(0::nat) < 8" and tc: "(1::nat) < 8" by simp_all
  have "\<exists>tb3 pts lead final gain.
      promotionStep 0 1 (mkPiece White 5) (movedBoard promotionBoard 1 0 0 1 (mkPiece White 5))
        = Inr (tb3, pts, lead) \<and>
      combinationStep 0 1 White tb3 pts = (final, gain) \<and>
      simulateFullMove 1 0 0 1 White promotionBoard =
        Inr \<lparr>tempBoard = Some final, aiScoreGain = Fin (of_nat gain),
             leadsToChoiceForThisPlayer = lead\<rparr> \<and>
      pts \<le> gain \<and> cell final 0 1 = Some (mkPiece White 5\<lparr>promoted := True\<rparr>)"
    using simulateFullMove_promotion [OF wf p col tr tc dest] unfolding if_P [OF trig]
    by (elim exE conjE) (intro exI conjI; assumption)
  with wf p dest trig show ?thesis by (intro conjI) simp_all
qed

section \<open>Properties of the hash\<close>

lemma fold_xor_init: "fold (\<lambda>x h. h XOR x) hs (h0 :: hash) = h0 XOR fold (\<lambda>x h. h XOR x) hs 0"
proof (induction hs arbitrary: h0)
  case Nil
  then show ?case by simp
next
  case (Cons x hs)
  have "fold (\<lambda>x h. h XOR x) (x # hs) h0 = (h0 XOR x) XOR fold (\<lambda>x h. h XOR x) hs 0"
    using Cons.IH [of "h0 XOR x"] by simp
  also have "\<dots> = h0 XOR (x XOR fold (\<lambda>x h. h XOR x) hs 0)"
    by (simp add: xor.assoc)
  also have "x XOR fold (\<lambda>x h. h XOR x) hs 0 = fold (\<lambda>x h. h XOR x) (x # hs) 0"
    using Cons.IH [of "0 XOR x"] by simp
  finally show ?case .
qed

lemma xorAll_Cons: "xorAll (x # hs) = x XOR xorAll hs"
  unfolding xorAll_def using fold_xor_init [of hs "0 XOR x"] by simp

lemma xorAll_Nil [simp]: "xorAll [] = 0"
  by (simp add: xorAll_def)

lemma xorAll_append: "xorAll (xs @ ys) = xorAll xs XOR xorAll ys"
  by (induction xs) (simp_all add: xorAll_Cons xor.assoc)

lemma row_fold:
  "fold (\<lambda>c h. case cell b r c of None \<Rightarrow> h
                | Some pc \<Rightarrow> h XOR table Z (getPieceIndex pc) (r * 8 + c)) cs h0 =
   h0 XOR xorAll (map (\<lambda>c. squareKey Z b (r, c)) cs)"
proof (induction cs arbitrary: h0)
  case Nil
  then show ?case by simp
next
  case (Cons c cs)
  show ?case
    by (cases "cell b r c") (simp_all add: Cons.IH xorAll_Cons squareKey_def xor.assoc)
qed

lemma fold_xor_map:
  "fold (\<lambda>r h. h XOR f r) rs (h0 :: hash) = h0 XOR xorAll (map f rs)"
proof (induction rs arbitrary: h0)
  case Nil
  then show ?case by simp
next
  case (Cons r rs)
  show ?case by (simp add: Cons.IH xorAll_Cons xor.assoc)
qed

lemma xorAll_product:
  "xorAll (map (\<lambda>r. xorAll (map (\<lambda>c. k (r, c)) cs)) rs) = xorAll (map k (List.product rs cs))"
  by (induction rs) (simp_all add: xorAll_Cons xorAll_append comp_def)

lemma board_fold:
  "fold (\<lambda>r h. fold (\<lambda>c h. case cell b r c of None \<Rightarrow> h
                | Some pc \<Rightarrow> h XOR table Z (getPieceIndex pc) (r * 8 + c)) cs h) rs h0 =
   h0 XOR xorAll (map (squareKey Z b) (List.product rs cs))"
  unfolding row_fold fold_xor_map xorAll_product ..

lemma calculateZobristKey_alt:
  "calculateZobristKey Z b cp =
     (if cp = Black then xorAll (map (squareKey Z b) (List.product [0..<8] [0..<8])) XOR blackToMove Z
      else xorAll (map (squareKey Z b) (List.product [0..<8] [0..<8])))"
  unfolding calculateZobristKey_def Let_def board_fold by simp

lemma xorAll_change1:
  assumes "distinct xs" "x \<in> set xs" "\<forall>z. z \<noteq> x \<longrightarrow> k' z = k z"
  shows "xorAll (map k' xs) = (xorAll (map k xs) XOR k x) XOR k' x"
  using assms
proof (induction xs)
  case Nil
  then show ?case by simp
next
  case (Cons a xs)
  show ?case
  proof (cases "a = x")
    case True
    with Cons.prems have "x \<notin> set xs" by simp
    with Cons.prems(3) have "map k' xs = map k xs" by (intro map_cong refl) auto
    then have "xorAll (map k' xs) = xorAll (map k xs)" by (rule arg_cong)
    with True show ?thesis
      by (simp add: xorAll_Cons xor.assoc xor.commute xor.left_commute)
  next
    case False
    with Cons have "xorAll (map k' xs) = (xorAll (map k xs) XOR k x) XOR k' x" by simp
    moreover from False Cons.prems(3) have "k' a = k a" by simp
    ultimately show ?thesis by (simp add: xorAll_Cons xor.assoc)
  qed
qed

lemma xorAll_change2:
  assumes d: "distinct xs" and x: "x \<in> set xs" and y: "y \<in> set xs" and ne: "x \<noteq> y"
    and same: "\<forall>z. z \<noteq> x \<and> z \<noteq> y \<longrightarrow> k' z = k z"
  shows "xorAll (map k' xs) = (((xorAll (map k xs) XOR k x) XOR k' x) XOR k y) XOR k' y"
proof -
  define k1 where "k1 = k(x := k' x)"
  have "xorAll (map k1 xs) = (xorAll (map k xs) XOR k x) XOR k1 x"
    by (rule xorAll_change1 [OF d x]) (simp add: k1_def)
  moreover have "xorAll (map k' xs) = (xorAll (map k1 xs) XOR k1 y) XOR k' y"
    by (rule xorAll_change1 [OF d y]) (use same in \<open>auto simp: k1_def\<close>)
  ultimately show ?thesis using ne by (simp add: k1_def)
qed

lemma cell_erasePromotion:
  "cell (erasePromotion b) r c = map_option (\<lambda>pc. pc\<lparr>promoted := False\<rparr>) (cell b r c)"
  by (auto simp: cell_def erasePromotion_def)

lemma squareKey_erasePromotion: "squareKey Z (erasePromotion b) = squareKey Z b"
proof
  fix k show "squareKey Z (erasePromotion b) k = squareKey Z b k"
    by (cases "cell b (fst k) (snd k)")
       (simp_all add: squareKey_def cell_erasePromotion getPieceIndex_def)
qed

lemma calculateZobristKey_erasePromotion:
  "calculateZobristKey Z (erasePromotion b) cp = calculateZobristKey Z b cp"
  by (simp add: calculateZobristKey_alt squareKey_erasePromotion)


lemma comboCaptures_finite: "wf_board tb \<Longrightarrow> finite (comboCaptures tr tc col tb)"
proof -
  assume wf: "wf_board tb"
  have "comboCaptures tr tc col tb \<subseteq> {..<8} \<times> {..<8}"
    using opposingSquares_range [OF wf] by (fastforce simp: comboCaptures_def)
  then show ?thesis by (rule finite_subset) simp
qed

lemma comboCaptures_number:
  assumes "wf_board tb" "k \<in> comboCaptures tr tc col tb"
  shows "1 \<le> squareNumber tb k"
proof -
  from assms(2) obtain pc where "cell tb (fst k) (snd k) = Some pc"
    by (auto simp: comboCaptures_def opposingSquares_def)
  with wf_board_square [OF assms(1), of "fst k" "snd k"] show ?thesis
    by (simp add: squareNumber_def wf_square_def)
qed

lemma promotionMatches_finite: "finite (promotionMatches tb p)"
proof -
  have "promotionMatches tb p \<subseteq> {..<8} \<times> {..<8}"
    by (auto simp: promotionMatches_def)
  then show ?thesis by (rule finite_subset) simp
qed

lemma simulateFullMove_no_capture:
  assumes wf: "wf_board b" and p: "cell b fr fc = Some p" and col: "color p = col"
    and tr: "tr < 8" and tc: "tc < 8" and dest: "cell b tr tc = None"
    and sim: "simulateFullMove fr fc tr tc col b = Inr r"
    and gain0: "aiScoreGain r = Fin 0" and tb: "tempBoard r = Some b'"
  shows "\<exists>p'. getPieceIndex p' = getPieceIndex p \<and>
           (\<forall>r c. cell b' r c = (if (r, c) = (tr, tc) then Some p'
                                 else if (r, c) = (fr, fc) then None else cell b r c))"
proof -
  from cell_Some_range [OF wf p] have fr: "fr < 8" and fc: "fc < 8" by simp_all
  define tb1 where "tb1 = movedBoard b fr fc tr tc p"
  define tb2 where "tb2 = promotedBoard tb1 tr tc p"
  define M where "M = promotionMatches tb2 p"
  have sq: "wf_square (Some p)" using wf_board_square [OF wf, of fr fc] p by simp
  then have num: "1 \<le> number p" by (simp add: wf_square_def)
  have ne: "(fr, fc) \<noteq> (tr, tc)" using p dest by auto
  have wf1: "wf_board tb1"
    unfolding tb1_def movedBoard_def using wf tr tc fr fc sq
    by (intro wf_board_setCell) (auto simp: wf_square_def)
  have wf2: "wf_board tb2"
    unfolding tb2_def promotedBoard_def using wf1 tr tc sq
    by (intro wf_board_setCell) (auto simp: wf_square_def)
  have c1: "\<And>r c. cell tb1 r c = (if (r, c) = (tr, tc) then Some p
                                 else if (r, c) = (fr, fc) then None else cell b r c)"
    unfolding tb1_def movedBoard_def using wf tr fr ne
    by (auto simp: cell_setCell wf_board_length)
  have c2: "\<And>r c. cell tb2 r c = (if (r, c) = (tr, tc) then Some (p\<lparr>promoted := True\<rparr>)
                                 else if (r, c) = (fr, fc) then None else cell b r c)"
    unfolding tb2_def promotedBoard_def using wf1 tr c1
    by (auto simp: cell_setCell wf_board_length)
  from simulateFullMove_promotion [OF wf p col tr tc dest]
  obtain tb3 pts lead final gain where
    cs: "combinationStep tr tc col tb3 pts = (final, gain)"
    and sm: "simulateFullMove fr fc tr tc col b =
        Inr \<lparr>tempBoard = Some final, aiScoreGain = Fin (of_nat gain),
             leadsToChoiceForThisPlayer = lead\<rparr>"
    and le: "pts \<le> gain"
    and rest: "(if tr = homeRank col \<and> \<not> promoted p then
         cell final tr tc = Some (p\<lparr>promoted := True\<rparr>) \<and>
         (M = {} \<longrightarrow> pts = 0 \<and> \<not> lead \<and> tb3 = tb2) \<and>
         (card M = 1 \<longrightarrow> pts = number p \<and> \<not> lead \<and>
            (\<exists>m. M = {m} \<and> tb3 = setCell tb2 (fst m) (snd m) None \<and>
               cell final (fst m) (snd m) = None)) \<and>
         (2 \<le> card M \<longrightarrow> pts = number p \<and> lead \<and>
            (\<exists>m \<in> M. (\<forall>k \<in> M. k = m \<or> rowMajorLess m k) \<and>
               tb3 = setCell tb2 (fst m) (snd m) None \<and> cell final (fst m) (snd m) = None))
       else tb3 = tb1 \<and> pts = 0 \<and> \<not> lead \<and> cell final tr tc = Some p)"
    unfolding tb1_def [symmetric] tb2_def [symmetric] M_def [symmetric] by blast
  from sm sim gain0 tb have fin: "final = b'" and g0: "gain = 0" by auto
  with le have p0: "pts = 0" by simp
  have tb3: "tb3 = tb1 \<or> tb3 = tb2"
  proof (cases "tr = homeRank col \<and> \<not> promoted p")
    case False
    with rest show ?thesis by simp
  next
    case True
    have "M = {}"
    proof (rule ccontr)
      assume "M \<noteq> {}"
      then have "card M \<noteq> 0" using promotionMatches_finite [of tb2 p] by (simp add: M_def)
      then have "card M = 1 \<or> 2 \<le> card M" by arith
      with rest True have "pts = number p" by auto
      with p0 num show False by simp
    qed
    with rest True show ?thesis by simp
  qed
  then have wf3: "wf_board tb3" using wf1 wf2 by auto
  from combinationStep_props [OF wf3 cs] g0 p0
  have cf: "\<And>r c. cell final r c =
      (if (r, c) \<in> comboCaptures tr tc col tb3 then None else cell tb3 r c)"
    and s0: "sum (squareNumber tb3) (comboCaptures tr tc col tb3) = 0" by simp_all
  have "comboCaptures tr tc col tb3 = {}"
  proof (rule ccontr)
    assume "comboCaptures tr tc col tb3 \<noteq> {}"
    then obtain k where k: "k \<in> comboCaptures tr tc col tb3" by blast
    from s0 comboCaptures_finite [OF wf3] k have "squareNumber tb3 k = 0" by simp
    with comboCaptures_number [OF wf3 k] show False by simp
  qed
  with cf fin have same: "\<And>r c. cell b' r c = cell tb3 r c" by simp
  from tb3 show ?thesis
  proof
    assume "tb3 = tb1"
    with same c1 show ?thesis by (intro exI [of _ p]) simp
  next
    assume "tb3 = tb2"
    with same c2 show ?thesis
      by (intro exI [of _ "p\<lparr>promoted := True\<rparr>"]) (simp add: getPieceIndex_def)
  qed
qed

section \<open>Claims about the hash\<close>

text \<open>
  Claim C8.  On a board of eight rows of eight squares, for either side to move and every
  legal step of that side whose simulation captures nothing (score gain 0: every plain
  move, and also a promotion that finds no piece to capture, since the hash does not see
  the promoted flag), the incremental update of the hash of the position before the move
  -- exclusive or with the key of (piece, origin), with the key of (piece, destination)
  and with the side-to-move key -- is the hash computed from scratch for the board after
  the move with the other side to move.
\<close>

theorem incremental_hash_matches:
  assumes wf: "wf_board b" and p: "cell b fr fc = Some p" and col: "color p = col"
    and tr: "tr < 8" and tc: "tc < 8" and dest: "cell b tr tc = None"
    and sim: "simulateFullMove fr fc tr tc col b = Inr r"
    and gain0: "aiScoreGain r = Fin 0" and tb: "tempBoard r = Some b'"
  shows "calculateZobristKey Z b' (opponent col) =
         nextHashOf Z (calculateZobristKey Z b col)
           \<lparr>fromRow = fr, fromCol = fc, toRow = tr, toCol = tc, piece = p\<rparr>"
proof -
  from cell_Some_range [OF wf p] have fr: "fr < 8" and fc: "fc < 8" by simp_all
  have ne: "(fr, fc) \<noteq> (tr, tc)" using p dest by auto
  from simulateFullMove_no_capture [OF assms] obtain p' where
    idx: "getPieceIndex p' = getPieceIndex p"
    and c: "\<And>r c. cell b' r c = (if (r, c) = (tr, tc) then Some p'
                                 else if (r, c) = (fr, fc) then None else cell b r c)"
    by blast
  let ?sq = "List.product [0..<8] [0..<8]"
  have d: "distinct ?sq" by (intro distinct_product) simp_all
  have x: "(fr, fc) \<in> set ?sq" and y: "(tr, tc) \<in> set ?sq" using fr fc tr tc by simp_all
  have same: "\<forall>z. z \<noteq> (fr, fc) \<and> z \<noteq> (tr, tc) \<longrightarrow> squareKey Z b' z = squareKey Z b z"
    using c by (auto simp: squareKey_def)
  have kx: "squareKey Z b (fr, fc) = table Z (getPieceIndex p) (fr * 8 + fc)"
    using p by (simp add: squareKey_def)
  have kx': "squareKey Z b' (fr, fc) = 0"
    using c [of fr fc] ne by (auto simp: squareKey_def)
  have ky: "squareKey Z b (tr, tc) = 0"
    using dest by (simp add: squareKey_def)
  have ky': "squareKey Z b' (tr, tc) = table Z (getPieceIndex p) (tr * 8 + tc)"
    using c [of tr tc] idx by (simp add: squareKey_def)
  from xorAll_change2 [OF d x y ne same]
  have "xorAll (map (squareKey Z b') ?sq) =
        (xorAll (map (squareKey Z b) ?sq) XOR table Z (getPieceIndex p) (fr * 8 + fc))
          XOR table Z (getPieceIndex p) (tr * 8 + tc)"
    by (simp add: kx kx' ky ky')
  then show ?thesis
    by (cases col)
       (simp_all add: calculateZobristKey_alt nextHashOf_def opponent_def
          xor.assoc xor.commute xor.left_commute)
qed

theorem incremental_hash_matches_witness:
  "wf_board loneBoard \<and> cell loneBoard 6 0 = Some (mkPiece White 5) \<and>
   cell loneBoard 5 0 = None \<and>
   simulateFullMove 6 0 5 0 White loneBoard =
     Inr \<lparr>tempBoard = Some loneBoardStepped, aiScoreGain = Fin 0,
          leadsToChoiceForThisPlayer = False\<rparr> \<and>
   (\<forall>Z. calculateZobristKey Z loneBoardStepped Black =
        nextHashOf Z (calculateZobristKey Z loneBoard White)
          \<lparr>fromRow = 6, fromCol = 0, toRow = 5, toCol = 0, piece = mkPiece White 5\<rparr>)"
proof -
  have wf: "wf_board loneBoard" by code_simp
  have p: "cell loneBoard 6 0 = Some (mkPiece White 5)" by code_simp
  have col: "color (mkPiece White 5) = White" by code_simp
  have dest: "cell loneBoard 5 0 = None" by code_simp
  have tr: "(5::nat) < 8" and tc: "(0::nat) < 8" by simp_all
  have sim: "simulateFullMove 6 0 5 0 White loneBoard =
     Inr \<lparr>tempBoard = Some loneBoardStepped, aiScoreGain = Fin 0,
          leadsToChoiceForThisPlayer = False\<rparr>" by code_simp
  have "calculateZobristKey Z loneBoardStepped Black =
        nextHashOf Z (calculateZobristKey Z loneBoard White)
          \<lparr>fromRow = 6, fromCol = 0, toRow = 5, toCol = 0, piece = mkPiece White 5\<rparr>" for Z
    using incremental_hash_matches [OF wf p col tr tc dest sim, of loneBoardStepped Z]
    by (simp add: opponent_def)
  with wf p dest sim show ?thesis by simp
qed

text \<open>
  Claim C10.  \<open>calculateZobristKey\<close> does not see the promoted flag: two boards that
  are the same once every promoted flag is erased have the same hash, for either side to
  move, so a table keyed by the hash holds one entry for both and the lookup at the head of
  the search gives the same answer for both.
\<close>

theorem calculateZobristKey_promotion_blind:
  assumes "erasePromotion b1 = erasePromotion b2"
  shows "calculateZobristKey Z b1 cp = calculateZobristKey Z b2 cp \<and>
         (tt :: ttable) (calculateZobristKey Z b1 cp) = tt (calculateZobristKey Z b2 cp) \<and>
         ttProbe (tt (calculateZobristKey Z b1 cp)) depth alpha beta =
           ttProbe (tt (calculateZobristKey Z b2 cp)) depth alpha beta"
proof -
  from calculateZobristKey_erasePromotion [of Z b1 cp]
    calculateZobristKey_erasePromotion [of Z b2 cp] assms
  have "calculateZobristKey Z b1 cp = calculateZobristKey Z b2 cp" by simp
  then show ?thesis by simp
qed

theorem calculateZobristKey_promotion_blind_witness:
  "erasePromotion loneBoard = erasePromotion loneBoardPromoted \<and>
   loneBoard \<noteq> loneBoardPromoted \<and>
   (\<forall>Z cp. calculateZobristKey Z loneBoard cp = calculateZobristKey Z loneBoardPromoted cp)"
proof -
  have e: "erasePromotion loneBoard = erasePromotion loneBoardPromoted" by code_simp
  have n: "loneBoard \<noteq> loneBoardPromoted" by code_simp
  from calculateZobristKey_promotion_blind [OF e] e n show ?thesis by blast
qed

section \<open>Connectivity search and subset enumeration\<close>

lemma abs_le_one: "\<bar>x :: int\<bar> \<le> 1 \<longleftrightarrow> x = - 1 \<or> x = 0 \<or> x = 1"
  by arith

lemma in_directions:
  "(dr, dc) \<in> set directions \<longleftrightarrow>
     (dr = - 1 \<or> dr = 0 \<or> dr = 1) \<and> (dc = - 1 \<or> dc = 0 \<or> dc = 1) \<and> \<not> (dr = 0 \<and> dc = 0)"
  unfolding directions_def by auto

lemma adjacent8_directions: "adjacent8 a b \<longleftrightarrow> b \<in> nbrs a directions"
proof -
  obtain ar ac where a: "a = (ar, ac)" by (cases a)
  obtain br bc where b: "b = (br, bc)" by (cases b)
  have "adjacent8 a b \<longleftrightarrow> (br - ar, bc - ac) \<in> set directions"
  proof -
    have "\<bar>ar - br\<bar> = \<bar>br - ar\<bar>" "\<bar>ac - bc\<bar> = \<bar>bc - ac\<bar>" by simp_all
    moreover have "(ar, ac) \<noteq> (br, bc) \<longleftrightarrow> \<not> (br - ar = 0 \<and> bc - ac = 0)" by auto
    ultimately show ?thesis
      unfolding a b adjacent8_def in_directions fst_conv snd_conv
      by (simp only: abs_le_one) blast
  qed
  also have "\<dots> \<longleftrightarrow> b \<in> nbrs a directions"
  proof
    assume "(br - ar, bc - ac) \<in> set directions"
    then have "(\<lambda>d. (fst a + fst d, snd a + snd d)) (br - ar, bc - ac) \<in> nbrs a directions"
      unfolding nbrs_def by (rule imageI)
    then show "b \<in> nbrs a directions" by (simp add: a b)
  next
    assume "b \<in> nbrs a directions"
    then obtain d where d: "d \<in> set directions" and bd: "b = (fst a + fst d, snd a + snd d)"
      unfolding nbrs_def by blast
    obtain dr dc where dd: "d = (dr, dc)" by (cases d)
    from bd have "d = (br - ar, bc - ac)" by (simp add: a b dd)
    with d show "(br - ar, bc - ac) \<in> set directions" by simp
  qed
  finally show ?thesis .
qed

lemma adjacent8_sym: "adjacent8 a b \<Longrightarrow> adjacent8 b a"
  by (auto simp: adjacent8_def abs_minus_commute)

lemma nbrs_Nil [simp]: "nbrs c [] = {}"
  by (simp add: nbrs_def)

lemma nbrs_Cons: "nbrs c (d # ds) = insert (fst c + fst d, snd c + snd d) (nbrs c ds)"
  by (simp add: nbrs_def)

lemma scanDirs_result:
  "scanDirs pS c ds (vS, q) = (vS', q') \<Longrightarrow> distinct vS \<Longrightarrow>
   distinct vS' \<and> set vS' = set vS \<union> (nbrs c ds \<inter> set pS) \<and>
   set q' = set q \<union> (set vS' - set vS)"
proof (induction ds arbitrary: vS q)
  case Nil
  then show ?case by auto
next
  case (Cons d ds)
  define k where "k = (fst c + fst d, snd c + snd d)"
  have step: "scanDirs pS c (d # ds) (vS, q) =
      (if k \<in> set pS \<and> k \<notin> set vS then scanDirs pS c ds (vS @ [k], q @ [k])
       else scanDirs pS c ds (vS, q))"
    unfolding k_def by (simp add: Let_def)
  have nb: "nbrs c (d # ds) = insert k (nbrs c ds)" by (simp add: nbrs_Cons k_def)
  show ?case
  proof (cases "k \<in> set pS \<and> k \<notin> set vS")
    case True
    with Cons.prems step have s: "scanDirs pS c ds (vS @ [k], q @ [k]) = (vS', q')"
      by presburger
    have d: "distinct (vS @ [k])" using True Cons.prems(2) by simp
    from Cons.IH [OF s d] have
      "distinct vS'" "set vS' = insert k (set vS) \<union> (nbrs c ds \<inter> set pS)"
      "set q' = insert k (set q) \<union> (set vS' - insert k (set vS))" by simp_all
    with True show ?thesis unfolding nb by auto
  next
    case False
    with Cons.prems step have s: "scanDirs pS c ds (vS, q) = (vS', q')"
      by presburger
    from Cons.IH [OF s Cons.prems(2)] False show ?thesis unfolding nb by auto
  qed
qed

lemma reachFrom_subset: "s \<in> S \<Longrightarrow> reachFrom S s \<subseteq> S"
proof
  fix x assume s: "s \<in> S" and "x \<in> reachFrom S s"
  then have "(s, x) \<in> (adjacencyOn S)\<^sup>*" by (simp add: reachFrom_def)
  then show "x \<in> S" using s
    by (induction rule: rtrancl_induct) (auto simp: adjacencyOn_def)
qed

lemma reachFrom_step:
  "x \<in> reachFrom S s \<Longrightarrow> x \<in> S \<Longrightarrow> y \<in> S \<Longrightarrow> adjacent8 x y \<Longrightarrow> y \<in> reachFrom S s"
  unfolding reachFrom_def
  by (auto intro: rtrancl_into_rtrancl simp: adjacencyOn_def)

lemma closed_contains_reach:
  assumes "s \<in> V" and "\<forall>v \<in> V. \<forall>w \<in> S. adjacent8 v w \<longrightarrow> w \<in> V"
  shows "reachFrom S s \<subseteq> V"
proof
  fix x assume "x \<in> reachFrom S s"
  then have "(s, x) \<in> (adjacencyOn S)\<^sup>*" by (simp add: reachFrom_def)
  then show "x \<in> V"
    by (induction rule: rtrancl_induct) (use assms in \<open>auto simp: adjacencyOn_def\<close>)
qed

lemma bfsLoop_reach:
  "s \<in> set pS \<Longrightarrow> distinct vS \<Longrightarrow> set q \<subseteq> set vS \<Longrightarrow> s \<in> set vS \<Longrightarrow>
   set vS \<subseteq> reachFrom (set pS) s \<Longrightarrow>
   (\<forall>v \<in> set vS - set q. \<forall>w \<in> set pS. adjacent8 v w \<longrightarrow> w \<in> set vS) \<Longrightarrow>
   distinct (bfsLoop pS vS q) \<and> set (bfsLoop pS vS q) = reachFrom (set pS) s"
proof (induction pS vS q rule: bfsLoop.induct)
  case (1 pS vS)
  from closed_contains_reach [of s "set vS" "set pS"] "1.prems"
  have "reachFrom (set pS) s \<subseteq> set vS" by simp
  with "1.prems" show ?case by auto
next
  case (2 pS vS c q)
  obtain vS' q' where sd: "scanDirs pS c directions (vS, q) = (vS', q')"
    by (cases "scanDirs pS c directions (vS, q)")
  from scanDirs_result [OF sd "2.prems"(2)] have
    d': "distinct vS'" and v': "set vS' = set vS \<union> (nbrs c directions \<inter> set pS)"
    and q': "set q' = set q \<union> (set vS' - set vS)" by simp_all
  have cv: "c \<in> set vS" using "2.prems"(3) by simp
  then have cr: "c \<in> reachFrom (set pS) s" using "2.prems"(5) by blast
  then have cp: "c \<in> set pS" using reachFrom_subset [OF "2.prems"(1)] by blast
  have sub: "set q' \<subseteq> set vS'" using q' v' "2.prems"(3) by auto
  have sv: "s \<in> set vS'" using v' "2.prems"(4) by simp
  have reach: "set vS' \<subseteq> reachFrom (set pS) s"
  proof
    fix x assume "x \<in> set vS'"
    with v' have "x \<in> set vS \<or> (x \<in> nbrs c directions \<and> x \<in> set pS)" by auto
    then show "x \<in> reachFrom (set pS) s"
    proof
      assume "x \<in> set vS" with "2.prems"(5) show ?thesis by blast
    next
      assume "x \<in> nbrs c directions \<and> x \<in> set pS"
      then have "adjacent8 c x" "x \<in> set pS" by (simp_all add: adjacent8_directions)
      with reachFrom_step [OF cr cp] show ?thesis by blast
    qed
  qed
  have closed: "\<forall>v \<in> set vS' - set q'. \<forall>w \<in> set pS. adjacent8 v w \<longrightarrow> w \<in> set vS'"
  proof (intro ballI impI)
    fix v w assume v: "v \<in> set vS' - set q'" and w: "w \<in> set pS" and a: "adjacent8 v w"
    from v q' have vold: "v \<in> set vS" and vq: "v \<notin> set q" by auto
    show "w \<in> set vS'"
    proof (cases "v = c")
      case True
      with a w have "w \<in> nbrs c directions \<inter> set pS" by (simp add: adjacent8_directions)
      with v' show ?thesis by blast
    next
      case False
      with vold vq have "v \<in> set vS - set (c # q)" by simp
      with "2.prems"(6) w a have "w \<in> set vS" by blast
      with v' show ?thesis by blast
    qed
  qed
  from "2.IH" [OF sd [symmetric] "2.prems"(1) d' sub sv reach closed] sd
  show ?case by simp
qed

lemma sym_adjacencyOn: "sym (adjacencyOn S)"
  by (auto simp: sym_def adjacencyOn_def adjacent8_sym)

lemma connectedSquares_reach:
  assumes "s \<in> S"
  shows "connectedSquares S \<longleftrightarrow> reachFrom S s = S"
proof
  assume "connectedSquares S"
  with assms have "S \<subseteq> reachFrom S s" by (auto simp: connectedSquares_def reachFrom_def)
  with reachFrom_subset [OF assms] show "reachFrom S s = S" by blast
next
  assume r: "reachFrom S s = S"
  show "connectedSquares S"
    unfolding connectedSquares_def
  proof (intro ballI)
    fix a b assume "a \<in> S" "b \<in> S"
    with r have sa: "(s, a) \<in> (adjacencyOn S)\<^sup>*" and sb: "(s, b) \<in> (adjacencyOn S)\<^sup>*"
      by (auto simp: reachFrom_def)
    have "sym ((adjacencyOn S)\<^sup>*)" by (rule sym_rtrancl [OF sym_adjacencyOn])
    from symD [OF this sa] have "(a, s) \<in> (adjacencyOn S)\<^sup>*" .
    from rtrancl_trans [OF this sb] show "(a, b) \<in> (adjacencyOn S)\<^sup>*" .
  qed
qed

lemma areConnectedOptimized_correct:
  assumes "distinct (map pd_key ps)"
  shows "areConnectedOptimized ps \<longleftrightarrow> connectedSquares (set (map pd_key ps))"
proof (cases "length ps \<le> 1")
  case True
  then have "ps = [] \<or> (\<exists>x. ps = [x])"
    by (cases ps) (auto simp: length_Suc_conv)
  then have "connectedSquares (set (map pd_key ps))"
    by (auto simp: connectedSquares_def)
  with True show ?thesis by (simp add: areConnectedOptimized_def)
next
  case False
  then obtain p rest where ps: "ps = p # rest" by (cases ps) auto
  define S where "S = set (map pd_key ps)"
  define s where "s = pd_key (hd ps)"
  have sS: "s \<in> S" by (simp add: s_def S_def ps)
  have rd: "remdups (map pd_key ps) = map pd_key ps" using assms by (rule distinct_remdups_id)
  have "distinct (bfsLoop (map pd_key ps) [s] [s]) \<and>
        set (bfsLoop (map pd_key ps) [s] [s]) = reachFrom (set (map pd_key ps)) s"
    by (rule bfsLoop_reach) (use sS in \<open>auto simp: S_def reachFrom_def\<close>)
  then have len: "length (bfsLoop (map pd_key ps) [s] [s]) = card (reachFrom S s)"
    unfolding S_def by (metis distinct_card)
  have cardS: "card S = length ps" unfolding S_def using assms
    by (metis distinct_card length_map)
  have fin: "finite S" by (simp add: S_def)
  have "areConnectedOptimized ps \<longleftrightarrow> card (reachFrom S s) = card S"
    using False
    by (simp add: areConnectedOptimized_def rd Let_def s_def [symmetric] len cardS
          del: bfsLoop.simps)
  also have "\<dots> \<longleftrightarrow> reachFrom S s = S"
    using reachFrom_subset [OF sS] fin by (metis card_subset_eq)
  also have "\<dots> \<longleftrightarrow> connectedSquares S"
    using connectedSquares_reach [OF sS] by simp
  finally show ?thesis by (simp add: S_def)
qed

lemma maskLimit_small: "n \<le> 30 \<Longrightarrow> maskLimit n = 2 ^ n"
  unfolding maskLimit_def
  by (rule bit_eqI) (auto simp: bit_sint_iff bit_push_bit_iff bit_1_iff bit_exp_iff)

lemma maskBitShr_bit: "i < 32 \<Longrightarrow> maskBitShr m i = bit m i"
proof -
  assume i: "i < 32"
  have "maskBitShr m i = bit (signed_drop_bit i (word_of_int m :: 32 word)) 0"
    using i by (simp add: maskBitShr_def and_one_eq bit_0 odd_iff_mod_2_eq_one)
  also have "\<dots> = bit (word_of_int m :: 32 word) i"
    using i by (simp add: bit_signed_drop_bit_iff)
  also have "\<dots> = bit m i"
    using i by (simp add: bit_word_of_int_iff)
  finally show ?thesis .
qed

lemma maskBitAnd_bit: "i < 32 \<Longrightarrow> maskBitAnd m i = bit m i"
proof -
  assume i: "i < 32"
  have "maskBitAnd m i = bit (word_of_int m :: 32 word) i"
    using i by (simp add: maskBitAnd_def push_bit_of_1 and_exp_eq_0_iff_not_bit)
  also have "\<dots> = bit m i"
    using i by (simp add: bit_word_of_int_iff)
  finally show ?thesis .
qed

lemma findValidCombinations_alt:
  assumes "length ps \<le> 30"
  shows "findValidCombinations ps =
         concat (map (\<lambda>m. if accepts (pick ps m) then [pick ps m] else []) [3 .. 2 ^ length ps - 1])"
proof -
  have f1: "filter (maskBitShr m) [0..<length ps] = filter (bit m) [0..<length ps]" for m
    using assms by (intro filter_cong refl maskBitShr_bit) simp
  have f2: "filter (maskBitAnd m) [0..<length ps] = filter (bit m) [0..<length ps]" for m
    using assms by (intro filter_cong refl maskBitAnd_bit) simp
  have len: "length (pick ps m) = length (filter (bit m) [0..<length ps])" for m
    by (simp add: pick_def)
  show ?thesis
    unfolding findValidCombinations_def Let_def f1 f2 maskLimit_small [OF assms]
      pick_def [symmetric] len [symmetric] accepts_def
    by (intro arg_cong [where f = concat] map_cong refl) auto
qed

lemma mem_findValidCombinations:
  assumes "length ps \<le> 30"
  shows "c \<in> set (findValidCombinations ps) \<longleftrightarrow>
         (\<exists>m. 3 \<le> m \<and> m < 2 ^ length ps \<and> c = pick ps m \<and> accepts c)"
  unfolding findValidCombinations_alt [OF assms] by auto

lemma set_pick: "set (pick ps m) = {ps ! i |i. i < length ps \<and> bit m i}"
  by (auto simp: pick_def)

lemma distinct_pick_key:
  assumes "distinct (map pd_key ps)"
  shows "distinct (map pd_key (pick ps m))"
proof -
  have "map pd_key (pick ps m) = map (\<lambda>i. map pd_key ps ! i) (filter (bit m) [0..<length ps])"
    by (simp add: pick_def)
  moreover have "distinct (map (\<lambda>i. map pd_key ps ! i) (filter (bit m) [0..<length ps]))"
  proof -
    have "inj_on (\<lambda>i. map pd_key ps ! i) (set (filter (bit m) [0..<length ps]))"
      using assms nth_eq_iff_index_eq [of "map pd_key ps"] by (auto simp: inj_on_def)
    then show ?thesis by (simp add: distinct_map)
  qed
  ultimately show ?thesis by simp
qed

lemma distinct_key_imp: "distinct (map pd_key c) \<Longrightarrow> distinct c"
  by (simp add: distinct_map)

lemma not_White: "c \<noteq> White \<longleftrightarrow> c = Black"
  by (cases c) simp_all

lemma accepts_valid:
  assumes "distinct (map pd_key c)"
  shows "accepts c \<longleftrightarrow> validCombination (set c)"
proof -
  have d: "distinct c" using assms by (rule distinct_key_imp)
  have "sum_list (map (\<lambda>pD. number (pd_piece pD)) c) = (\<Sum>q \<in> set c. number (pd_piece q))"
    using d by (rule sum_list_distinct_conv_sum_set)
  moreover have "length c = card (set c)" using d by (simp add: distinct_card)
  moreover have "areConnectedOptimized c \<longleftrightarrow> connectedSquares (pd_key ` set c)"
    using areConnectedOptimized_correct [OF assms] by simp
  ultimately show ?thesis
    by (simp add: accepts_def validCombination_def list_ex_iff not_White)
qed

lemma mask_exists:
  "\<exists>m :: int. 0 \<le> m \<and> m < 2 ^ n \<and> (\<forall>i. bit m i \<longleftrightarrow> i < n \<and> P i)"
proof -
  define m :: int where "m = horner_sum of_bool 2 (map P [0..<n])"
  have "0 \<le> m" unfolding m_def by (rule horner_sum_nonnegative)
  moreover have "m < 2 ^ n" unfolding m_def using horner_sum_bound [of "map P [0..<n]"] by simp
  moreover have "\<forall>i. bit m i \<longleftrightarrow> i < n \<and> P i"
    unfolding m_def by (auto simp: bit_horner_sum_bit_iff)
  ultimately show ?thesis by blast
qed

lemma two_bits_ge_3:
  assumes "0 \<le> (m :: int)" "bit m i" "bit m j" "i \<noteq> j"
  shows "3 \<le> m"
proof (rule ccontr)
  assume "\<not> 3 \<le> m"
  with assms(1) have "m = 0 \<or> m = 1 \<or> m = 2" by arith
  with assms(2,3,4) show False by (auto simp: bit_1_iff bit_2_iff)
qed

lemma subset_as_pick:
  assumes S: "S \<subseteq> set ps" and two: "2 \<le> card S"
  shows "\<exists>m. 3 \<le> m \<and> m < 2 ^ length ps \<and> set (pick ps m) = S"
proof -
  from mask_exists [of "length ps" "\<lambda>i. ps ! i \<in> S"] obtain m :: int where
    m0: "0 \<le> m" and mlt: "m < 2 ^ length ps"
    and bits: "\<And>i. bit m i \<longleftrightarrow> i < length ps \<and> ps ! i \<in> S" by blast
  have sp: "set (pick ps m) = S"
  proof
    show "set (pick ps m) \<subseteq> S" by (auto simp: set_pick bits)
  next
    show "S \<subseteq> set (pick ps m)"
    proof
      fix x assume x: "x \<in> S"
      with S have "x \<in> set ps" by blast
      then obtain i where "i < length ps" "ps ! i = x" by (metis in_set_conv_nth)
      with x show "x \<in> set (pick ps m)" by (auto simp: set_pick bits)
    qed
  qed
  from two obtain x y where xy: "x \<in> S" "y \<in> S" "x \<noteq> y"
    by (metis card_le_Suc0_iff_eq card.infinite not_less_eq_eq numeral_2_eq_2 zero_le)
  with S obtain i j where ij: "i < length ps" "ps ! i = x" "j < length ps" "ps ! j = y"
    by (metis in_set_conv_nth subsetD)
  with xy have "bit m i" "bit m j" "i \<noteq> j" by (auto simp: bits)
  with m0 have "3 \<le> m" by (rule two_bits_ge_3)
  with mlt sp show ?thesis by blast
qed

lemma findValidCombinations_sets:
  assumes len: "length ps \<le> 30" and d: "distinct (map pd_key ps)"
  shows "set ` set (findValidCombinations ps) = {S. S \<subseteq> set ps \<and> validCombination S}"
proof (intro set_eqI iffI)
  fix S assume "S \<in> set ` set (findValidCombinations ps)"
  then obtain c where c: "c \<in> set (findValidCombinations ps)" and S: "S = set c" by blast
  from c obtain m where m: "c = pick ps m" and acc: "accepts c"
    unfolding mem_findValidCombinations [OF len] by blast
  have dc: "distinct (map pd_key c)" unfolding m by (rule distinct_pick_key [OF d])
  have "set c \<subseteq> set ps" unfolding m by (auto simp: set_pick)
  with acc accepts_valid [OF dc] S show "S \<in> {S. S \<subseteq> set ps \<and> validCombination S}" by simp
next
  fix S assume "S \<in> {S. S \<subseteq> set ps \<and> validCombination S}"
  then have sub: "S \<subseteq> set ps" and v: "validCombination S" by simp_all
  from v have "2 \<le> card S" by (simp add: validCombination_def)
  from subset_as_pick [OF sub this] obtain m where
    m: "3 \<le> m" "m < 2 ^ length ps" and sp: "set (pick ps m) = S" by blast
  have "accepts (pick ps m)"
    using accepts_valid [OF distinct_pick_key [OF d], of m] v sp by simp
  with m have "pick ps m \<in> set (findValidCombinations ps)"
    unfolding mem_findValidCombinations [OF len] by blast
  with sp show "S \<in> set ` set (findValidCombinations ps)" by blast
qed

lemma concat_option_scan:
  "concat (map (\<lambda>x. case f x of None \<Rightarrow> [] | Some p \<Rightarrow> [g x p]) xs) =
   map (\<lambda>x. g x (the (f x))) (filter (\<lambda>x. f x \<noteq> None) xs)"
  by (induction xs) (auto split: option.splits)

lemma nearbyPieces_alt:
  "nearbyPieces r0 c0 tb =
   map (\<lambda>k. \<lparr>pd_row = fst k, pd_col = snd k, pd_piece = the (cell tb (fst k) (snd k))\<rparr>)
     (filter (\<lambda>k. cell tb (fst k) (snd k) \<noteq> None) (List.product (windowRows r0) (windowRows c0)))"
proof -
  have "nearbyPieces r0 c0 tb =
    concat (map (\<lambda>(r, c). case cell tb r c of None \<Rightarrow> []
        | Some p \<Rightarrow> [\<lparr>pd_row = r, pd_col = c, pd_piece = p\<rparr>])
      (List.product (windowRows r0) (windowRows c0)))"
    unfolding nearbyPieces_def windowRows_def by (rule scan_as_product)
  also have "\<dots> = concat (map (\<lambda>k. case cell tb (fst k) (snd k) of None \<Rightarrow> []
        | Some p \<Rightarrow> [\<lparr>pd_row = fst k, pd_col = snd k, pd_piece = p\<rparr>])
      (List.product (windowRows r0) (windowRows c0)))"
    by (simp add: split_def)
  finally show ?thesis by (simp only: concat_option_scan)
qed

lemma nearbyPieces_keys:
  "map pd_key (nearbyPieces r0 c0 tb) =
   map (\<lambda>k. (int (fst k), int (snd k)))
     (filter (\<lambda>k. cell tb (fst k) (snd k) \<noteq> None) (List.product (windowRows r0) (windowRows c0)))"
  unfolding nearbyPieces_alt by (simp add: pd_key_def comp_def)

lemma nearbyPieces_distinct: "distinct (map pd_key (nearbyPieces r0 c0 tb))"
proof -
  have "distinct (List.product (windowRows r0) (windowRows c0))"
    by (intro distinct_product) (simp_all add: windowRows_def)
  then have "distinct (filter (\<lambda>k. cell tb (fst k) (snd k) \<noteq> None)
     (List.product (windowRows r0) (windowRows c0)))" by (rule distinct_filter)
  moreover have "inj_on (\<lambda>k :: nat \<times> nat. (int (fst k), int (snd k))) A" for A
    by (auto simp: inj_on_def prod_eq_iff)
  ultimately show ?thesis
    unfolding nearbyPieces_keys by (simp only: distinct_map)
qed

lemma set_nearbyPieces:
  "set (nearbyPieces r0 c0 tb) =
   {\<lparr>pd_row = r, pd_col = c, pd_piece = p\<rparr> |r c p. inWindow r0 c0 r c \<and> cell tb r c = Some p}"
  unfolding nearbyPieces_alt inWindow_def windowRows_def
  by (auto simp: image_iff)

lemma colorScan_result:
  "colorScan ps (hw0, hb0) = (hw, hb) \<Longrightarrow>
   (hw \<and> hb) = ((hw0 \<or> (\<exists>q \<in> set ps. color (pd_piece q) = White)) \<and>
                 (hb0 \<or> (\<exists>q \<in> set ps. color (pd_piece q) = Black)))"
proof (induction ps arbitrary: hw0 hb0)
  case Nil
  then show ?case by auto
next
  case (Cons pD rest)
  define hw1 where "hw1 = (hw0 \<or> color (pd_piece pD) = White)"
  define hb1 where "hb1 = (if color (pd_piece pD) = White then hb0
                else hb0 \<or> color (pd_piece pD) = Black)"
  have step: "colorScan (pD # rest) (hw0, hb0) =
      (if hw1 \<and> hb1 then (hw1, hb1) else colorScan rest (hw1, hb1))"
    by (simp add: Let_def hw1_def hb1_def)
  have hb1': "hb1 = (hb0 \<or> color (pd_piece pD) = Black)"
    by (cases "color (pd_piece pD)") (simp_all add: hb1_def)
  show ?case
  proof (cases "hw1 \<and> hb1")
    case True
    with Cons.prems step have "hw = hw1" "hb = hb1" by simp_all
    with True show ?thesis by (auto simp: hw1_def hb1')
  next
    case False
    with Cons.prems step have "colorScan rest (hw1, hb1) = (hw, hb)" by simp
    from Cons.IH [OF this] show ?thesis by (auto simp: hw1_def hb1')
  qed
qed

lemma combinationsAmong_eq:
  "combinationsAmong ps =
     (if (\<exists>q \<in> set ps. color (pd_piece q) = White) \<and> (\<exists>q \<in> set ps. color (pd_piece q) = Black)
      then findValidCombinations ps else [])"
proof -
  obtain hw hb where c: "colorScan ps (False, False) = (hw, hb)"
    by (cases "colorScan ps (False, False)")
  from colorScan_result [OF c] c show ?thesis
    by (auto simp: combinationsAmong_def)
qed

lemma combinationsAmong_sets:
  assumes len: "length ps \<le> 30" and d: "distinct (map pd_key ps)"
  shows "set ` set (combinationsAmong ps) = {S. S \<subseteq> set ps \<and> validCombination S}"
proof (cases "(\<exists>q \<in> set ps. color (pd_piece q) = White) \<and> (\<exists>q \<in> set ps. color (pd_piece q) = Black)")
  case True
  then show ?thesis
    unfolding combinationsAmong_eq using findValidCombinations_sets [OF len d] by simp
next
  case False
  then have "{S. S \<subseteq> set ps \<and> validCombination S} = {}"
    by (auto simp: validCombination_def)
  with False show ?thesis unfolding combinationsAmong_eq by auto
qed

lemma combinationsAmong_permuted:
  assumes len: "length ps \<le> 30" and d: "distinct (map pd_key ps)" and perm: "mset ps' = mset ps"
  shows "set ` set (combinationsAmong ps') = set ` set (combinationsAmong ps)"
proof -
  from perm have se: "set ps' = set ps" by (rule mset_eq_setD)
  from perm have le: "length ps' = length ps" by (rule mset_eq_length)
  from perm have "mset (map pd_key ps') = mset (map pd_key ps)" by simp
  with d have d': "distinct (map pd_key ps')" by (metis mset_eq_imp_distinct_iff)
  from combinationsAmong_sets [OF len d] combinationsAmong_sets [OF _ d'] len le se
  show ?thesis by simp
qed

lemma opposingSquares_set:
  "set ps = set qs \<Longrightarrow> opposingSquares tb col ps = opposingSquares tb col qs"
  by (simp add: opposingSquares_def)

lemma set_concat_sets:
  "set ` set xss = set ` set yss \<Longrightarrow> set (concat xss) = set (concat yss)"
proof -
  assume a: "set ` set xss = set ` set yss"
  have "set (concat xss) = \<Union> (set ` set xss)" for xss :: "'a list list" by simp
  with a show ?thesis by simp
qed

lemma wf_board_eqI:
  assumes "wf_board a" "wf_board b" "\<And>r c. cell a r c = cell b r c"
  shows "a = b"
proof (rule nth_equalityI)
  show "length a = length b" using assms by (simp add: wf_board_length)
next
  fix r assume r: "r < length a"
  then have r8: "r < 8" using assms by (simp add: wf_board_length)
  show "a ! r = b ! r"
  proof (rule nth_equalityI)
    show "length (a ! r) = length (b ! r)" using assms r8 by (simp add: wf_board_row)
  next
    fix c assume "c < length (a ! r)"
    then have c8: "c < 8" using assms r8 by (simp add: wf_board_row)
    from assms(3) [of r c] show "a ! r ! c = b ! r ! c"
      using assms(1,2) r8 c8 by (simp add: wf_board_cell)
  qed
qed

lemma applyCombinations_sets:
  assumes wf: "wf_board tb" and eq: "set ` set combos' = set ` set combos"
  shows "applyCombinations tb col combos' g = applyCombinations tb col combos g"
proof -
  obtain b1 g1 where r1: "applyCombinations tb col combos' g = (b1, g1)"
    by (cases "applyCombinations tb col combos' g")
  obtain b2 g2 where r2: "applyCombinations tb col combos g = (b2, g2)"
    by (cases "applyCombinations tb col combos g")
  have o: "opposingSquares tb col (concat combos') = opposingSquares tb col (concat combos)"
    by (rule opposingSquares_set) (rule set_concat_sets [OF eq])
  from applyCombinations_props [OF wf r1] applyCombinations_props [OF wf r2] o
  have "g1 = g2" and "\<And>r c. cell b1 r c = cell b2 r c" by simp_all
  moreover have "wf_board b1" "wf_board b2"
    using applyCombinations_wf [OF wf r1] applyCombinations_wf [OF wf r2] by simp_all
  ultimately have "b1 = b2" "g1 = g2" by (auto intro: wf_board_eqI)
  with r1 r2 show ?thesis by simp
qed

lemma pieceOn_nearby:
  "inWindow r0 c0 (fst k) (snd k) \<Longrightarrow> cell tb (fst k) (snd k) = Some p \<Longrightarrow>
   pieceOn k p \<in> set (nearbyPieces r0 c0 tb)"
  unfolding set_nearbyPieces pieceOn_def by blast

lemma nearby_piece:
  "q \<in> set (nearbyPieces r0 c0 tb) \<Longrightarrow> cell tb (pd_row q) (pd_col q) = Some (pd_piece q)"
  unfolding set_nearbyPieces by auto

lemma checkCombinations_sets:
  assumes "length (nearbyPieces r0 c0 tb) \<le> 30"
  shows "set ` set (checkCombinationsAroundPositionOnBoard r0 c0 tb col) =
         {S. S \<subseteq> set (nearbyPieces r0 c0 tb) \<and> validCombination S}"
  unfolding checkCombinationsAroundPositionOnBoard_def
  by (rule combinationsAmong_sets [OF assms nearbyPieces_distinct])

lemma cluster_valid:
  assumes k: "k1 \<noteq> k2" "k1 \<noteq> k3" "k2 \<noteq> k3"
    and w1: "color w1 = White" "number w1 = 3" and w2: "color w2 = White" "number w2 = 3"
    and b3: "color b3 = Black" "number b3 = 4"
    and conn: "connectedSquares {squareKeyInt k1, squareKeyInt k2, squareKeyInt k3}"
  shows "validCombination {pieceOn k1 w1, pieceOn k2 w2, pieceOn k3 b3}"
proof -
  have ne: "pieceOn k1 w1 \<noteq> pieceOn k2 w2" "pieceOn k1 w1 \<noteq> pieceOn k3 b3"
    "pieceOn k2 w2 \<noteq> pieceOn k3 b3"
    using k by (auto simp: pieceOn_def prod_eq_iff)
  then have card: "card {pieceOn k1 w1, pieceOn k2 w2, pieceOn k3 b3} = 3" by simp
  have sum: "(\<Sum>q \<in> {pieceOn k1 w1, pieceOn k2 w2, pieceOn k3 b3}. number (pd_piece q)) = 10"
    using ne w1 w2 b3 by (simp add: pieceOn_def)
  have keys: "pd_key ` {pieceOn k1 w1, pieceOn k2 w2, pieceOn k3 b3} =
      {squareKeyInt k1, squareKeyInt k2, squareKeyInt k3}"
    by (simp add: pd_key_def pieceOn_def squareKeyInt_def)
  show ?thesis
    unfolding validCombination_def card sum keys
    using w1 b3 conn by (simp add: pieceOn_def)
qed

lemma simulateFullMove_steps:
  assumes "wf_board b" "cell b fr fc = Some p" "color p = col" "tr < 8" "cell b tr tc = None"
    and "promotionStep tr tc p (movedBoard b fr fc tr tc p) = Inr (tb3, pts, lead)"
    and "combinationStep tr tc col tb3 pts = (final, gain)"
  shows "simulateFullMove fr fc tr tc col b =
        Inr \<lparr>tempBoard = Some final, aiScoreGain = Fin (of_nat gain),
             leadsToChoiceForThisPlayer = lead\<rparr>"
  using assms
  by (simp add: simulateFullMove_def wf_board_length movedBoard_def Let_def)

lemma wf_movedBoard:
  assumes wf: "wf_board b" and p: "cell b fr fc = Some p" and tr: "tr < 8" and tc: "tc < 8"
  shows "wf_board (movedBoard b fr fc tr tc p)"
proof -
  from cell_Some_range [OF wf p] have fr: "fr < 8" and fc: "fc < 8" by simp_all
  have sq: "wf_square (Some p)" using wf_board_square [OF wf, of fr fc] p by simp
  show ?thesis
    unfolding movedBoard_def using wf tr tc fr fc sq
    by (intro wf_board_setCell) (auto simp: wf_square_def)
qed

lemma checkCombinations_characterisation:
  "set (nearbyPieces r0 c0 tb) =
     {\<lparr>pd_row = r, pd_col = c, pd_piece = p\<rparr> |r c p. inWindow r0 c0 r c \<and> cell tb r c = Some p} \<and>
   (\<not> ((\<exists>q \<in> set (nearbyPieces r0 c0 tb). color (pd_piece q) = White) \<and>
        (\<exists>q \<in> set (nearbyPieces r0 c0 tb). color (pd_piece q) = Black)) \<longrightarrow>
      checkCombinationsAroundPositionOnBoard r0 c0 tb col = []) \<and>
   (length (nearbyPieces r0 c0 tb) \<le> 30 \<longrightarrow>
      set ` set (checkCombinationsAroundPositionOnBoard r0 c0 tb col) =
        {S. S \<subseteq> set (nearbyPieces r0 c0 tb) \<and> validCombination S})"
proof (intro conjI impI)
  show "set (nearbyPieces r0 c0 tb) =
     {\<lparr>pd_row = r, pd_col = c, pd_piece = p\<rparr> |r c p. inWindow r0 c0 r c \<and> cell tb r c = Some p}"
    by (rule set_nearbyPieces)
next
  assume "\<not> ((\<exists>q \<in> set (nearbyPieces r0 c0 tb). color (pd_piece q) = White) \<and>
        (\<exists>q \<in> set (nearbyPieces r0 c0 tb). color (pd_piece q) = Black))"
  then show "checkCombinationsAroundPositionOnBoard r0 c0 tb col = []"
    unfolding checkCombinationsAroundPositionOnBoard_def combinationsAmong_eq
    by (rule if_not_P)
next
  assume "length (nearbyPieces r0 c0 tb) \<le> 30"
  then show "set ` set (checkCombinationsAroundPositionOnBoard r0 c0 tb col) =
        {S. S \<subseteq> set (nearbyPieces r0 c0 tb) \<and> validCombination S}"
    by (rule checkCombinations_sets)
qed

section \<open>Claims about the combination pass\<close>

text \<open>
  Claim C3, at a window of 31 pieces.  For windows of at most 30 pieces
  \<open>checkCombinations_characterisation\<close> above is the claim: the pass collects the
  occupied squares of the window, returns nothing when they are of one colour, and
  otherwise accepts exactly the subsets of 2 to 8 pieces that sum to 10, hold both colours
  and are connected.  From 31 pieces on, the 32-bit shift \<^verbatim>\<open>1 << n\<close> that bounds
  the mask loop is negative or small and subsets are skipped.  In the crowded position,
  after White's 5 steps from (5,3) to (4,3), the window around (4,3) holds 31 pieces; the
  White 5 and the Black 5 above it are two adjacent pieces of both colours that sum to 10,
  yet the pass returns no combination and the simulated move captures nothing.
\<close>

theorem crowded_window_misses_combination:
  "length (nearbyPieces 4 3 crowdedBoardMoved) = 31 \<and>
   {pieceOn (4, 3) (mkPiece White 5), pieceOn (3, 3) (mkPiece Black 5)}
      \<subseteq> set (nearbyPieces 4 3 crowdedBoardMoved) \<and>
   validCombination {pieceOn (4, 3) (mkPiece White 5), pieceOn (3, 3) (mkPiece Black 5)} \<and>
   checkCombinationsAroundPositionOnBoard 4 3 crowdedBoardMoved White = [] \<and>
   simulateFullMove 5 3 4 3 White crowdedBoard =
     Inr \<lparr>tempBoard = Some crowdedBoardMoved, aiScoreGain = Fin 0,
          leadsToChoiceForThisPlayer = False\<rparr>"
proof -
  let ?c = "[pieceOn (4, 3) (mkPiece White 5), pieceOn (3, 3) (mkPiece Black 5)]"
  have n: "length (nearbyPieces 4 3 crowdedBoardMoved) = 31" by code_simp
  have sub: "set ?c \<subseteq> set (nearbyPieces 4 3 crowdedBoardMoved)" by code_simp
  have d: "distinct (map pd_key ?c)" by code_simp
  have a: "accepts ?c" by code_simp
  from accepts_valid [OF d] a have v: "validCombination (set ?c)" by simp
  have e: "checkCombinationsAroundPositionOnBoard 4 3 crowdedBoardMoved White = []"
    by code_simp
  have s: "simulateFullMove 5 3 4 3 White crowdedBoard =
     Inr \<lparr>tempBoard = Some crowdedBoardMoved, aiScoreGain = Fin 0,
          leadsToChoiceForThisPlayer = False\<rparr>" by code_simp
  from n sub v e s show ?thesis by simp
qed

text \<open>
  Claim C9, as the code has it.  Take a legal White step and the board \<open>tb\<close> that the
  promotion block leaves, with \<open>g\<close> points so far.  If the window around the
  destination holds at most 30 pieces, among them a White 3, a White 3 and a Black 4 on
  three connected squares, then the cluster is one of the accepted combinations; the
  simulated move clears the square of the Black 4 and no square of a White piece; the points
  gained are \<open>g\<close> plus the numbers on the captured squares, at least 4 more than
  \<open>g\<close>, and exactly 4 more when the Black 4 is the only Black piece in the window
  (the capture scores the number of the captured piece, 4, not 2); and collecting the
  window's pieces in any other order gives the same board and the same points.
\<close>

theorem cluster_capture:
  assumes wf: "wf_board b" and p: "cell b fr fc = Some p" and col: "color p = White"
    and tr: "tr < 8" and tc: "tc < 8" and dest: "cell b tr tc = None"
    and ps: "promotionStep tr tc p (movedBoard b fr fc tr tc p) = Inr (tb, g, lead)"
    and cs: "combinationStep tr tc White tb g = (final, gain)"
    and len: "length (nearbyPieces tr tc tb) \<le> 30"
    and k: "k1 \<noteq> k2" "k1 \<noteq> k3" "k2 \<noteq> k3"
    and win: "inWindow tr tc (fst k1) (snd k1)" "inWindow tr tc (fst k2) (snd k2)"
      "inWindow tr tc (fst k3) (snd k3)"
    and c1: "cell tb (fst k1) (snd k1) = Some w1" "color w1 = White" "number w1 = 3"
    and c2: "cell tb (fst k2) (snd k2) = Some w2" "color w2 = White" "number w2 = 3"
    and c3: "cell tb (fst k3) (snd k3) = Some b3" "color b3 = Black" "number b3 = 4"
    and conn: "connectedSquares {squareKeyInt k1, squareKeyInt k2, squareKeyInt k3}"
  shows "simulateFullMove fr fc tr tc White b =
           Inr \<lparr>tempBoard = Some final, aiScoreGain = Fin (of_nat gain),
                leadsToChoiceForThisPlayer = lead\<rparr> \<and>
         (\<exists>c \<in> set (checkCombinationsAroundPositionOnBoard tr tc tb White).
            set c = {pieceOn k1 w1, pieceOn k2 w2, pieceOn k3 b3}) \<and>
         cell final (fst k3) (snd k3) = None \<and>
         (\<forall>r c q. cell tb r c = Some q \<and> color q = White \<longrightarrow> cell final r c = Some q) \<and>
         gain = g + sum (squareNumber tb) (comboCaptures tr tc White tb) \<and> g + 4 \<le> gain \<and>
         ((\<forall>q \<in> set (nearbyPieces tr tc tb).
              color (pd_piece q) = Black \<longrightarrow> (pd_row q, pd_col q) = k3) \<longrightarrow>
            gain = g + 4 \<and>
            (\<forall>r c. cell final r c = (if (r, c) = k3 then None else cell tb r c))) \<and>
         (\<forall>ps'. mset ps' = mset (nearbyPieces tr tc tb) \<longrightarrow>
            applyCombinations tb White (combinationsAmong ps') g = (final, gain))"
proof -
  let ?nearby = "nearbyPieces tr tc tb"
  let ?combos = "checkCombinationsAroundPositionOnBoard tr tc tb White"
  let ?K = "comboCaptures tr tc White tb"
  let ?S = "{pieceOn k1 w1, pieceOn k2 w2, pieceOn k3 b3}"
  have wfm: "wf_board (movedBoard b fr fc tr tc p)" by (rule wf_movedBoard [OF wf p tr tc])
  have sq: "wf_square (Some p)"
    using wf_board_square [OF wf, of fr fc] p by simp
  from promotionStep_wf [OF wfm tr tc sq] ps have wft: "wf_board tb" by auto
  have sim: "simulateFullMove fr fc tr tc White b =
           Inr \<lparr>tempBoard = Some final, aiScoreGain = Fin (of_nat gain),
                leadsToChoiceForThisPlayer = lead\<rparr>"
    by (rule simulateFullMove_steps [OF wf p col tr dest ps cs])
  have sets: "set ` set ?combos = {S. S \<subseteq> set ?nearby \<and> validCombination S}"
    by (rule checkCombinations_sets [OF len])
  have sub: "?S \<subseteq> set ?nearby"
    using pieceOn_nearby [OF win(1) c1(1)] pieceOn_nearby [OF win(2) c2(1)]
      pieceOn_nearby [OF win(3) c3(1)] by simp
  have valid: "validCombination ?S"
    by (rule cluster_valid [OF k c1(2,3) c2(2,3) c3(2,3) conn])
  from sub valid sets have "?S \<in> set ` set ?combos" by blast
  then obtain c where c: "c \<in> set ?combos" and cS: "set c = ?S" by auto
  have k3K: "k3 \<in> ?K"
  proof -
    have "pieceOn k3 b3 \<in> set (concat ?combos)" using c cS by auto
    moreover have "cell tb (pd_row (pieceOn k3 b3)) (pd_col (pieceOn k3 b3)) = Some b3"
      using c3(1) by (simp add: pieceOn_def)
    ultimately show ?thesis
      unfolding comboCaptures_def opposingSquares_def using c3(2)
      by (auto simp: pieceOn_def intro!: bexI [of _ "pieceOn k3 b3"])
  qed
  from combinationStep_props [OF wft cs]
  have cf: "\<And>r c. cell final r c = (if (r, c) \<in> ?K then None else cell tb r c)"
    and gn: "gain = g + sum (squareNumber tb) ?K" by simp_all
  have fin: "finite ?K" by (rule comboCaptures_finite [OF wft])
  have n3: "squareNumber tb k3 = 4" using c3 by (simp add: squareNumber_def)
  have cap: "cell final (fst k3) (snd k3) = None" using cf [of "fst k3" "snd k3"] k3K by simp
  have white: "\<forall>r c q. cell tb r c = Some q \<and> color q = White \<longrightarrow> cell final r c = Some q"
    using cf by (auto simp: comboCaptures_color)
  have ge: "g + 4 \<le> gain"
  proof -
    have "squareNumber tb k3 \<le> sum (squareNumber tb) ?K"
      using fin k3K by (intro member_le_sum) simp_all
    with gn n3 show ?thesis by simp
  qed
  have only: "(\<forall>q \<in> set ?nearby. color (pd_piece q) = Black \<longrightarrow> (pd_row q, pd_col q) = k3) \<longrightarrow>
            gain = g + 4 \<and> (\<forall>r c. cell final r c = (if (r, c) = k3 then None else cell tb r c))"
  proof
    assume a: "\<forall>q \<in> set ?nearby. color (pd_piece q) = Black \<longrightarrow> (pd_row q, pd_col q) = k3"
    have "?K \<subseteq> {k3}"
    proof
      fix x assume "x \<in> ?K"
      then obtain q pc where q: "q \<in> set (concat ?combos)" and x: "x = (pd_row q, pd_col q)"
        and pc: "cell tb (pd_row q) (pd_col q) = Some pc" "color pc \<noteq> White"
        unfolding comboCaptures_def opposingSquares_def by blast
      from q obtain c' where "c' \<in> set ?combos" "q \<in> set c'" by auto
      with sets have qn: "q \<in> set ?nearby" by blast
      from nearby_piece [OF qn] pc have "color (pd_piece q) = Black"
        by (simp add: not_White)
      with a qn x show "x \<in> {k3}" by simp
    qed
    with k3K have "?K = {k3}" by blast
    with gn n3 cf show "gain = g + 4 \<and>
        (\<forall>r c. cell final r c = (if (r, c) = k3 then None else cell tb r c))" by simp
  qed
  have perm: "\<forall>ps'. mset ps' = mset ?nearby \<longrightarrow>
            applyCombinations tb White (combinationsAmong ps') g = (final, gain)"
  proof (intro allI impI)
    fix ps' assume m: "mset ps' = mset ?nearby"
    have "set ` set (combinationsAmong ps') = set ` set (combinationsAmong ?nearby)"
      by (rule combinationsAmong_permuted [OF len nearbyPieces_distinct m])
    from applyCombinations_sets [OF wft this, of White g] cs
    show "applyCombinations tb White (combinationsAmong ps') g = (final, gain)"
      by (simp add: combinationStep_def checkCombinationsAroundPositionOnBoard_def)
  qed
  from sim c cS cap white gn ge only perm show ?thesis by blast
qed

theorem cluster_capture_witness:
  "wf_board clusterBoard \<and> cell clusterBoard 4 3 = Some (mkPiece White 3) \<and>
   cell clusterBoard 3 2 = None \<and>
   promotionStep 3 2 (mkPiece White 3) (movedBoard clusterBoard 4 3 3 2 (mkPiece White 3)) =
     Inr (clusterBoardMoved, 0, False) \<and>
   combinationStep 3 2 White clusterBoardMoved 0 = (clusterBoardAfter, 4) \<and>
   length (nearbyPieces 3 2 clusterBoardMoved) \<le> 30 \<and>
   connectedSquares {squareKeyInt (3, 2), squareKeyInt (3, 3), squareKeyInt (3, 4)} \<and>
   simulateFullMove 4 3 3 2 White clusterBoard =
     Inr \<lparr>tempBoard = Some clusterBoardAfter, aiScoreGain = Fin (of_nat 4),
          leadsToChoiceForThisPlayer = False\<rparr> \<and>
   cell clusterBoardAfter 3 4 = None \<and>
   applyCombinations clusterBoardMoved White
      (combinationsAmong (rev (nearbyPieces 3 2 clusterBoardMoved))) 0 = (clusterBoardAfter, 4)"
proof -
  let ?w = "mkPiece White 3" and ?b = "mkPiece Black 4"
  let ?ps = "[pieceOn (3, 2) ?w, pieceOn (3, 3) ?w, pieceOn (3, 4) ?b]"
  have wf: "wf_board clusterBoard" by code_simp
  have p: "cell clusterBoard 4 3 = Some ?w" by code_simp
  have col: "color ?w = White" by code_simp
  have tr: "(3::nat) < 8" and tc: "(2::nat) < 8" by simp_all
  have dest: "cell clusterBoard 3 2 = None" by code_simp
  have ps: "promotionStep 3 2 ?w (movedBoard clusterBoard 4 3 3 2 ?w) =
     Inr (clusterBoardMoved, 0, False)" by code_simp
  have cs: "combinationStep 3 2 White clusterBoardMoved 0 = (clusterBoardAfter, 4)"
    by code_simp
  have len: "length (nearbyPieces 3 2 clusterBoardMoved) \<le> 30" by code_simp
  have k: "((3, 2) :: nat \<times> nat) \<noteq> (3, 3)" "((3, 2) :: nat \<times> nat) \<noteq> (3, 4)"
    "((3, 3) :: nat \<times> nat) \<noteq> (3, 4)" by simp_all
  have win: "inWindow 3 2 (fst (3 :: nat, 2 :: nat)) (snd (3 :: nat, 2 :: nat))"
    "inWindow 3 2 (fst (3 :: nat, 3 :: nat)) (snd (3 :: nat, 3 :: nat))"
    "inWindow 3 2 (fst (3 :: nat, 4 :: nat)) (snd (3 :: nat, 4 :: nat))" by code_simp+
  have c1: "cell clusterBoardMoved (fst (3 :: nat, 2 :: nat)) (snd (3 :: nat, 2 :: nat)) = Some ?w"
    "color ?w = White" "number ?w = 3" by code_simp+
  have c2: "cell clusterBoardMoved (fst (3 :: nat, 3 :: nat)) (snd (3 :: nat, 3 :: nat)) = Some ?w"
    by code_simp
  have c3: "cell clusterBoardMoved (fst (3 :: nat, 4 :: nat)) (snd (3 :: nat, 4 :: nat)) = Some ?b"
    "color ?b = Black" "number ?b = 4" by code_simp+
  have d: "distinct (map pd_key ?ps)" by code_simp
  have "areConnectedOptimized ?ps" by code_simp
  with areConnectedOptimized_correct [OF d]
  have conn: "connectedSquares {squareKeyInt (3, 2), squareKeyInt (3, 3), squareKeyInt (3, 4)}"
    by (simp add: pd_key_def pieceOn_def squareKeyInt_def)
  have m: "mset (rev (nearbyPieces 3 2 clusterBoardMoved)) = mset (nearbyPieces 3 2 clusterBoardMoved)"
    by simp
  from cluster_capture [OF wf p col tr tc dest ps cs len k win c1 c2 c1(2,3) c3 conn] m
  have "simulateFullMove 4 3 3 2 White clusterBoard =
     Inr \<lparr>tempBoard = Some clusterBoardAfter, aiScoreGain = Fin (of_nat 4),
          leadsToChoiceForThisPlayer = False\<rparr>"
    and "cell clusterBoardAfter 3 4 = None"
    and "applyCombinations clusterBoardMoved White
      (combinationsAmong (rev (nearbyPieces 3 2 clusterBoardMoved))) 0 = (clusterBoardAfter, 4)"
    by simp_all
  with wf p dest ps cs len conn show ?thesis by simp
qed

theorem cluster_capture_counterexample:
  "cell clusterBoardMoved 3 2 = Some (mkPiece White 3) \<and>
   cell clusterBoardMoved 3 3 = Some (mkPiece White 3) \<and>
   cell clusterBoardMoved 3 4 = Some (mkPiece Black 4) \<and>
   simulateFullMove 4 3 3 2 White clusterBoard =
     Inr \<lparr>tempBoard = Some clusterBoardAfter, aiScoreGain = Fin 4,
          leadsToChoiceForThisPlayer = False\<rparr> \<and>
   map_sum id aiScoreGain (simulateFullMove 4 3 3 2 White clusterBoard) \<noteq> Inr (Fin 2)"
  by code_simp

subsection \<open>The search returns finite values and legal moves\<close>

lemma isFin_Fin [simp]: "isFin (Fin q)"
  by (simp add: isFin_def)

lemma isFinE: "isFin v \<Longrightarrow> (\<And>q. v = Fin q \<Longrightarrow> P) \<Longrightarrow> P"
  by (cases v) (simp_all add: isFin_def)

lemma js_add_Fin: "isFin x \<Longrightarrow> isFin y \<Longrightarrow> isFin (js_add x y)"
  by (auto elim!: isFinE)

lemma js_sub_Fin: "isFin x \<Longrightarrow> isFin y \<Longrightarrow> isFin (js_sub x y)"
  by (auto elim!: isFinE simp: js_sub_def)

lemma js_neg_Fin: "isFin x \<Longrightarrow> isFin (js_neg x)"
  by (auto elim!: isFinE)

lemma js_max_Fin: "x = NegInf \<or> isFin x \<Longrightarrow> isFin y \<Longrightarrow> isFin (js_max x y)"
  by (auto elim!: isFinE simp: js_max_def)

lemma js_min_Fin: "x = PosInf \<or> isFin x \<Longrightarrow> isFin y \<Longrightarrow> isFin (js_min x y)"
  by (auto elim!: isFinE simp: js_min_def)

lemma js_gt_NegInf: "isFin x \<Longrightarrow> js_gt x NegInf"
  by (auto elim!: isFinE simp: js_gt_def)

lemma concat_nonempty: "concat xs \<noteq> [] \<longleftrightarrow> list_ex (\<lambda>x. x \<noteq> []) xs"
  by (induction xs) auto

lemma hasValidMoves_iff:
  "hasValidMoves b col \<longleftrightarrow> getAllPossibleMovesForPlayer b col \<noteq> []"
proof -
  have inner: "(case cell b r c of None \<Rightarrow> False
        | Some p \<Rightarrow> color p = col \<and> getValidMoves b r c \<noteq> []) \<longleftrightarrow>
      (case cell b r c of None \<Rightarrow> []
        | Some p \<Rightarrow> if color p = col
            then map (\<lambda>(mr, mc). \<lparr>fromRow = r, fromCol = c, toRow = mr, toCol = mc, piece = p\<rparr>)
                     (getValidMoves b r c)
            else []) \<noteq> []" for r c
    by (cases "cell b r c") simp_all
  show ?thesis
    unfolding hasValidMoves_def getAllPossibleMovesForPlayer_def concat_nonempty inner
    by (simp add: list_ex_iff)
qed

lemma inner_eval_Fin:
  "isFin s \<Longrightarrow> isFin (fold (\<lambda>c s. case cell b r c of None \<Rightarrow> s
       | Some pc \<Rightarrow> if color pc = ai then js_add s (Fin (pieceValue pc r))
                    else js_sub s (Fin (pieceValue pc r))) cs s)"
proof (induction cs arbitrary: s)
  case Nil
  then show ?case by simp
next
  case (Cons c cs)
  have "isFin (case cell b r c of None \<Rightarrow> s
       | Some pc \<Rightarrow> if color pc = ai then js_add s (Fin (pieceValue pc r))
                    else js_sub s (Fin (pieceValue pc r)))"
    using Cons.prems by (cases "cell b r c") (simp_all add: js_add_Fin js_sub_Fin)
  from Cons.IH [OF this] show ?case by simp
qed

lemma outer_eval_Fin:
  "isFin s \<Longrightarrow> isFin (fold (\<lambda>r s. fold (\<lambda>c s. case cell b r c of None \<Rightarrow> s
       | Some pc \<Rightarrow> if color pc = ai then js_add s (Fin (pieceValue pc r))
                    else js_sub s (Fin (pieceValue pc r))) cs s) rs s)"
proof (induction rs arbitrary: s)
  case Nil
  then show ?case by simp
next
  case (Cons r rs)
  from Cons.IH [OF inner_eval_Fin [OF Cons.prems]] show ?case by simp
qed

lemma evaluateBoard_Fin:
  assumes "wf_game g"
  shows "\<exists>v. evaluateBoard g ai = Inr v \<and> isFin v"
proof -
  from assms obtain b where b: "board g = Some b"
    and w: "isFin (whiteScore g)" and k: "isFin (blackScore g)"
    by (auto simp: wf_game_def split: option.splits)
  have "isFin (js_add (Fin 0) (js_sub (if ai = White then whiteScore g else blackScore g)
      (if (if ai = White then Black else White) = White then whiteScore g else blackScore g)))"
    using w k by (intro js_add_Fin js_sub_Fin) auto
  from outer_eval_Fin [OF this] show ?thesis
    unfolding evaluateBoard_def Let_def b by simp
qed

lemma child_wf:
  assumes g: "wf_game g" and b: "board g = Some b"
    and m: "m \<in> set (getAllPossibleMovesForPlayer b (currentPlayer g))"
  shows "\<exists>sim. simulateFullMove (fromRow m) (fromCol m) (toRow m) (toCol m) (currentPlayer g) b
            = Inr sim \<and> wf_game (childOf g sim) \<and> isFin (aiScoreGain sim) \<and>
            \<not> isInvalidMove (Inr sim)"
proof -
  from g b have wf: "wf_board b" and w: "isFin (whiteScore g)" and k: "isFin (blackScore g)"
    by (simp_all add: wf_game_def)
  from moves_props [OF m] have p: "cell b (fromRow m) (fromCol m) = Some (piece m)"
    and col: "color (piece m) = currentPlayer g" and tr: "toRow m < 8" and tc: "toCol m < 8"
    and dest: "cell b (toRow m) (toCol m) = None" by simp_all
  from simulateFullMove_valid [OF wf p col tr tc dest] obtain sim b' n where
    s: "simulateFullMove (fromRow m) (fromCol m) (toRow m) (toCol m) (currentPlayer g) b = Inr sim"
    and tb: "tempBoard sim = Some b'" and wf': "wf_board b'"
    and gain: "aiScoreGain sim = Fin (of_nat n)" by blast
  have "wf_game (childOf g sim)"
    using tb wf' gain w k by (auto simp: wf_game_def childOf_def intro: js_add_Fin)
  with s gain tb show ?thesis by (simp add: isInvalidMove_def)
qed

lemma ttProbe_Cutoff:
  "tt_ok tt \<Longrightarrow> ttProbe (tt h) d a b = Cutoff v \<Longrightarrow> isFin v"
  by (auto simp: ttProbe_def tt_ok_def Let_def split: option.splits if_splits)

lemma tt_ok_update:
  "tt_ok tt \<Longrightarrow> isFin v \<Longrightarrow> tt_ok (tt(h \<mapsto> \<lparr>entryValue = v, entryDepth = d, entryFlag = f\<rparr>))"
  by (auto simp: tt_ok_def)

lemma maxLoop_Fin:
  assumes s: "search_ok search" and g: "wf_game g" and b: "board g = Some b"
  shows "set ms \<subseteq> set (getAllPossibleMovesForPlayer b (currentPlayer g)) \<Longrightarrow> tt_ok tt \<Longrightarrow>
         bestValue = NegInf \<or> isFin bestValue \<Longrightarrow>
         \<exists>bv a' be' tt'. maxLoop Z search g b h ms (bestValue, alpha, beta, tt) = Inr (bv, a', be', tt')
            \<and> tt_ok tt' \<and> (bv = NegInf \<or> isFin bv) \<and> (ms \<noteq> [] \<longrightarrow> isFin bv)"
proof (induction ms arbitrary: bestValue alpha beta tt)
  case Nil
  then show ?case by simp
next
  case (Cons m ms)
  from Cons.prems(1) have m: "m \<in> set (getAllPossibleMovesForPlayer b (currentPlayer g))"
    and ms: "set ms \<subseteq> set (getAllPossibleMovesForPlayer b (currentPlayer g))" by simp_all
  from child_wf [OF g b m] obtain sim where
    sim: "simulateFullMove (fromRow m) (fromCol m) (toRow m) (toCol m) (currentPlayer g) b = Inr sim"
    and cw: "wf_game (childOf g sim)" and gf: "isFin (aiScoreGain sim)" by blast
  from s cw Cons.prems(2) obtain v t' where
    sr: "search (childOf g sim) alpha beta (nextHashOf Z h m) tt = Inr (v, t')"
    and vf: "isFin v" and t': "tt_ok t'" unfolding search_ok_def by blast
  define ev where "ev = js_add (aiScoreGain sim) v"
  have evf: "isFin ev" unfolding ev_def by (rule js_add_Fin [OF gf vf])
  have bvf: "isFin (js_max bestValue ev)" by (rule js_max_Fin [OF Cons.prems(3) evf])
  show ?case
  proof (cases "js_le beta (js_max alpha ev)")
    case True
    with sim sr have "maxLoop Z search g b h (m # ms) (bestValue, alpha, beta, tt) =
        Inr (js_max bestValue ev, js_max alpha ev, beta, t')"
      by (simp add: Let_def ev_def)
    with t' bvf show ?thesis by simp
  next
    case False
    with sim sr have "maxLoop Z search g b h (m # ms) (bestValue, alpha, beta, tt) =
        maxLoop Z search g b h ms (js_max bestValue ev, js_max alpha ev, beta, t')"
      by (simp add: Let_def ev_def)
    moreover from Cons.IH [OF ms t', of "js_max bestValue ev" "js_max alpha ev" beta] bvf
    obtain bv a' be' tt' where
      "maxLoop Z search g b h ms (js_max bestValue ev, js_max alpha ev, beta, t') = Inr (bv, a', be', tt')"
      "tt_ok tt'" "bv = NegInf \<or> isFin bv" "ms \<noteq> [] \<longrightarrow> isFin bv" by blast
    moreover have "ms = [] \<Longrightarrow> maxLoop Z search g b h ms (js_max bestValue ev, js_max alpha ev, beta, t')
        = Inr (js_max bestValue ev, js_max alpha ev, beta, t')" by simp
    ultimately show ?thesis using bvf by (cases "ms = []") auto
  qed
qed

lemma minLoop_Fin:
  assumes s: "search_ok search" and g: "wf_game g" and b: "board g = Some b"
  shows "set ms \<subseteq> set (getAllPossibleMovesForPlayer b (currentPlayer g)) \<Longrightarrow> tt_ok tt \<Longrightarrow>
         bestValue = PosInf \<or> isFin bestValue \<Longrightarrow>
         \<exists>bv a' be' tt'. minLoop Z search g b h ms (bestValue, alpha, beta, tt) = Inr (bv, a', be', tt')
            \<and> tt_ok tt' \<and> (bv = PosInf \<or> isFin bv) \<and> (ms \<noteq> [] \<longrightarrow> isFin bv)"
proof (induction ms arbitrary: bestValue alpha beta tt)
  case Nil
  then show ?case by simp
next
  case (Cons m ms)
  from Cons.prems(1) have m: "m \<in> set (getAllPossibleMovesForPlayer b (currentPlayer g))"
    and ms: "set ms \<subseteq> set (getAllPossibleMovesForPlayer b (currentPlayer g))" by simp_all
  from child_wf [OF g b m] obtain sim where
    sim: "simulateFullMove (fromRow m) (fromCol m) (toRow m) (toCol m) (currentPlayer g) b = Inr sim"
    and cw: "wf_game (childOf g sim)" and gf: "isFin (aiScoreGain sim)" by blast
  from s cw Cons.prems(2) obtain v t' where
    sr: "search (childOf g sim) alpha beta (nextHashOf Z h m) tt = Inr (v, t')"
    and vf: "isFin v" and t': "tt_ok t'" unfolding search_ok_def by blast
  define ev where "ev = js_add (js_neg (aiScoreGain sim)) v"
  have evf: "isFin ev" unfolding ev_def by (rule js_add_Fin [OF js_neg_Fin [OF gf] vf])
  have bvf: "isFin (js_min bestValue ev)" by (rule js_min_Fin [OF Cons.prems(3) evf])
  show ?case
  proof (cases "js_le (js_min beta ev) alpha")
    case True
    with sim sr have "minLoop Z search g b h (m # ms) (bestValue, alpha, beta, tt) =
        Inr (js_min bestValue ev, alpha, js_min beta ev, t')"
      by (simp add: Let_def ev_def)
    with t' bvf show ?thesis by simp
  next
    case False
    with sim sr have "minLoop Z search g b h (m # ms) (bestValue, alpha, beta, tt) =
        minLoop Z search g b h ms (js_min bestValue ev, alpha, js_min beta ev, t')"
      by (simp add: Let_def ev_def)
    moreover from Cons.IH [OF ms t', of "js_min bestValue ev" alpha "js_min beta ev"] bvf
    obtain bv a' be' tt' where
      "minLoop Z search g b h ms (js_min bestValue ev, alpha, js_min beta ev, t') = Inr (bv, a', be', tt')"
      "tt_ok tt'" "bv = PosInf \<or> isFin bv" "ms \<noteq> [] \<longrightarrow> isFin bv" by blast
    moreover have "ms = [] \<Longrightarrow> minLoop Z search g b h ms (js_min bestValue ev, alpha, js_min beta ev, t')
        = Inr (js_min bestValue ev, alpha, js_min beta ev, t')" by simp
    ultimately show ?thesis using bvf by (cases "ms = []") auto
  qed
qed

lemma alphaBetaSearch_Fin:
  "wf_game g \<Longrightarrow> tt_ok tt \<Longrightarrow>
   \<exists>v tt'. alphaBetaSearch Z g depth alpha beta isMax ai h tt = Inr (v, tt') \<and> isFin v \<and> tt_ok tt'"
proof (induction depth arbitrary: g alpha beta isMax h tt)
  case 0
  from evaluateBoard_Fin [OF "0.prems"(1)] obtain v where
    ev: "evaluateBoard g ai = Inr v" "isFin v" by blast
  from "0.prems"(1) obtain b where b: "board g = Some b"
    by (auto simp: wf_game_def split: option.splits)
  show ?case
  proof (cases "ttProbe (tt h) 0 alpha beta")
    case (Cutoff c)
    with ttProbe_Cutoff [OF "0.prems"(2) Cutoff] "0.prems"(2) show ?thesis
      by (subst alphaBetaSearch.simps) simp
  next
    case (Window a1 b1)
    with ev b "0.prems"(2) show ?thesis
      by (subst alphaBetaSearch.simps) simp
  qed
next
  case (Suc d)
  from evaluateBoard_Fin [OF Suc.prems(1)] obtain ve where
    ev: "evaluateBoard g ai = Inr ve" "isFin ve" by blast
  from Suc.prems(1) obtain b where b: "board g = Some b"
    by (auto simp: wf_game_def split: option.splits)
  have sok: "search_ok (\<lambda>cg a b' h t. alphaBetaSearch Z cg d a b' mx ai h t)" for mx
    unfolding search_ok_def using Suc.IH by blast
  show ?case
  proof (cases "ttProbe (tt h) (Suc d) alpha beta")
    case (Cutoff c)
    with ttProbe_Cutoff [OF Suc.prems(2) Cutoff] Suc.prems(2) show ?thesis
      by (subst alphaBetaSearch.simps) simp
  next
    case (Window a1 b1)
    show ?thesis
    proof (cases "gameOver g \<or> \<not> hasValidMoves b (currentPlayer g)")
      case True
      with Window ev b Suc.prems(2) show ?thesis
        by (subst alphaBetaSearch.simps) auto
    next
      case False
      let ?moves = "getAllPossibleMovesForPlayer b (currentPlayer g)"
      from False have ne: "?moves \<noteq> []" by (simp add: hasValidMoves_iff)
      show ?thesis
      proof (cases isMax)
        case True
        from maxLoop_Fin [where bestValue = NegInf and alpha = a1 and beta = b1 and Z = Z and h = h,
            OF sok [of False] Suc.prems(1) b subset_refl Suc.prems(2)] ne
        obtain bv a' be' tt' where
          l: "maxLoop Z (\<lambda>cg a b' h t. alphaBetaSearch Z cg d a b' False ai h t) g b h ?moves
                (NegInf, a1, b1, tt) = Inr (bv, a', be', tt')"
          and t: "tt_ok tt'" and f: "isFin bv" by auto
        from tt_ok_update [OF t f] Window b False True l f show ?thesis
          by (subst alphaBetaSearch.simps) (simp add: Let_def)
      next
        case nm: False
        from minLoop_Fin [where bestValue = PosInf and alpha = a1 and beta = b1 and Z = Z and h = h,
            OF sok [of True] Suc.prems(1) b subset_refl Suc.prems(2)] ne
        obtain bv a' be' tt' where
          l: "minLoop Z (\<lambda>cg a b' h t. alphaBetaSearch Z cg d a b' True ai h t) g b h ?moves
                (PosInf, a1, b1, tt) = Inr (bv, a', be', tt')"
          and t: "tt_ok tt'" and f: "isFin bv" by auto
        from tt_ok_update [OF t f] Window b False nm l f show ?thesis
          by (subst alphaBetaSearch.simps) (simp add: Let_def)
      qed
    qed
  qed
qed

lemma findIndex_Some: "findIndex P xs = Some i \<Longrightarrow> i < length xs"
  by (induction xs arbitrary: i) (auto split: if_splits)

lemma prioritize_ok:
  assumes "possibleMoves \<noteq> []"
  shows "\<exists>ms. prioritize possibleMoves (Some bm) = Inr ms \<and> set ms = set possibleMoves \<and>
           ms \<noteq> [] \<and> length ms = length possibleMoves"
proof (cases "findIndex (sameSquares bm) possibleMoves")
  case None
  with assms show ?thesis by (simp add: prioritize_def)
next
  case (Some i)
  from findIndex_Some [OF Some] have i: "i < length possibleMoves" .
  from id_take_nth_drop [OF i]
  have "set possibleMoves =
        set (possibleMoves ! i # (take i possibleMoves @ drop (Suc i) possibleMoves))"
    by (metis Un_insert_right list.simps(15) set_append)
  moreover have "Suc (length (take i possibleMoves @ drop (Suc i) possibleMoves)) =
        length possibleMoves"
    using i by simp
  ultimately show ?thesis using Some assms by (simp add: prioritize_def)
qed

lemma random_index:
  assumes "0 \<le> (u :: rat)" "u < 1" "0 < (n :: nat)"
  shows "0 \<le> \<lfloor>u * of_nat n\<rfloor> \<and> \<lfloor>u * of_nat n\<rfloor> < int n"
proof
  have "0 \<le> u * of_nat n" using assms by simp
  then show "0 \<le> \<lfloor>u * of_nat n\<rfloor>" by simp
next
  have "u * of_nat n < 1 * of_nat n" using assms by (intro mult_strict_right_mono) simp_all
  then have "u * of_nat n < of_int (int n)" by simp
  then show "\<lfloor>u * of_nat n\<rfloor> < int n" by (simp only: floor_less_iff)
qed

lemma rootLoop_ok:
  assumes g: "wf_game g" and b: "board g = Some b"
  shows "set ms \<subseteq> set (getAllPossibleMovesForPlayer b (currentPlayer g)) \<Longrightarrow> tt_ok tt \<Longrightarrow>
     rootInv (set (getAllPossibleMovesForPlayer b (currentPlayer g))) cur bv \<Longrightarrow>
     (\<exists>tt'. rootLoop Z clock g b depth rootHash ms (k, cur, bv, tt) = Inr (TimedOut tt') \<and> tt_ok tt' \<and>
        (\<exists>j. k \<le> j \<and> j < k + length ms \<and> clock j - clock 0 > AI_THINKING_TIME_MS)) \<or>
     (\<exists>cur' bv' tt'. rootLoop Z clock g b depth rootHash ms (k, cur, bv, tt)
          = Inr (Completed (k + length ms) cur' bv' tt') \<and> tt_ok tt' \<and>
          rootInv (set (getAllPossibleMovesForPlayer b (currentPlayer g))) cur' bv' \<and>
          (ms \<noteq> [] \<or> cur \<noteq> None \<longrightarrow> cur' \<noteq> None) \<and>
          (\<forall>j. k \<le> j \<and> j < k + length ms \<longrightarrow> \<not> clock j - clock 0 > AI_THINKING_TIME_MS))"
  (is "_ \<Longrightarrow> _ \<Longrightarrow> _ \<Longrightarrow> ?T ms k cur bv tt \<or> ?C ms k cur bv tt")
proof (induction ms arbitrary: k cur bv tt)
  case Nil
  then show ?case by simp
next
  case (Cons m ms)
  let ?M = "set (getAllPossibleMovesForPlayer b (currentPlayer g))"
  from Cons.prems(1) have m: "m \<in> ?M" and ms: "set ms \<subseteq> ?M" by simp_all
  show ?case
  proof (cases "clock k - clock 0 > AI_THINKING_TIME_MS")
    case True
    then have "rootLoop Z clock g b depth rootHash (m # ms) (k, cur, bv, tt) = Inr (TimedOut tt)"
      by simp
    moreover from True have "\<exists>j. k \<le> j \<and> j < k + length (m # ms) \<and>
        clock j - clock 0 > AI_THINKING_TIME_MS"
      by (intro exI [of _ k]) simp
    ultimately have "?T (m # ms) k cur bv tt" using Cons.prems(2) by blast
    then show ?thesis ..
  next
    case False
    from child_wf [OF g b m] obtain sim where
      sim: "simulateFullMove (fromRow m) (fromCol m) (toRow m) (toCol m) (currentPlayer g) b = Inr sim"
      and cw: "wf_game (childOf g sim)" and gf: "isFin (aiScoreGain sim)" by blast
    define mv where "mv = (if leadsToChoiceForThisPlayer sim then Inr (aiScoreGain sim, tt)
         else (case alphaBetaSearch Z (childOf g sim) (depth - 1) NegInf PosInf False
                     (currentPlayer g) (nextHashOf Z rootHash m) tt of
                 Inl e \<Rightarrow> Inl e
               | Inr (v, tt') \<Rightarrow> Inr (js_add (aiScoreGain sim) v, tt')))"
    have "\<exists>moveValue t'. mv = Inr (moveValue, t') \<and> isFin moveValue \<and> tt_ok t'"
    proof (cases "leadsToChoiceForThisPlayer sim")
      case True
      with gf Cons.prems(2) show ?thesis by (simp add: mv_def)
    next
      case False
      from alphaBetaSearch_Fin [OF cw Cons.prems(2)] obtain v t' where
        "alphaBetaSearch Z (childOf g sim) (depth - 1) NegInf PosInf False
            (currentPlayer g) (nextHashOf Z rootHash m) tt = Inr (v, t')" "isFin v" "tt_ok t'"
        by blast
      with False gf show ?thesis by (simp add: mv_def js_add_Fin)
    qed
    then obtain moveValue t' where mvr: "mv = Inr (moveValue, t')"
      and mf: "isFin moveValue" and t': "tt_ok t'" by blast
    have step: "rootLoop Z clock g b depth rootHash (m # ms) (k, cur, bv, tt) =
        (if js_gt moveValue bv
         then rootLoop Z clock g b depth rootHash ms (Suc k, Some m, moveValue, t')
         else rootLoop Z clock g b depth rootHash ms (Suc k, cur, bv, t'))"
    proof -
      have "rootLoop Z clock g b depth rootHash (m # ms) (k, cur, bv, tt) =
        (case mv of Inl e \<Rightarrow> Inl e
         | Inr (moveValue, tt') \<Rightarrow>
             if js_gt moveValue bv
             then rootLoop Z clock g b depth rootHash ms (Suc k, Some m, moveValue, tt')
             else rootLoop Z clock g b depth rootHash ms (Suc k, cur, bv, tt'))"
        unfolding mv_def
        by (simp only: rootLoop.simps False if_False Let_def sim sum.case)
      then show ?thesis by (simp add: mvr)
    qed
    define cur1 where "cur1 = (if js_gt moveValue bv then Some m else cur)"
    define bv1 where "bv1 = (if js_gt moveValue bv then moveValue else bv)"
    have step': "rootLoop Z clock g b depth rootHash (m # ms) (k, cur, bv, tt) =
        rootLoop Z clock g b depth rootHash ms (Suc k, cur1, bv1, t')"
      unfolding step cur1_def bv1_def by (simp del: rootLoop.simps)
    have c1: "cur1 \<noteq> None"
    proof (cases "js_gt moveValue bv")
      case True
      then show ?thesis by (simp add: cur1_def)
    next
      case ngt: False
      with js_gt_NegInf [OF mf] have "bv \<noteq> NegInf" by auto
      with Cons.prems(3) have "cur \<noteq> None" by (auto simp: rootInv_def)
      with ngt show ?thesis by (simp add: cur1_def)
    qed
    have inv: "rootInv ?M cur1 bv1"
      using Cons.prems(3) m mf by (simp add: cur1_def bv1_def rootInv_def)
    from Cons.IH [OF ms t' inv, of "Suc k"]
    show ?thesis
    proof
      assume "?T ms (Suc k) cur1 bv1 t'"
      then obtain tt' j where r: "rootLoop Z clock g b depth rootHash ms (Suc k, cur1, bv1, t')
            = Inr (TimedOut tt')" and o: "tt_ok tt'"
        and j: "Suc k \<le> j" "j < Suc k + length ms" "clock j - clock 0 > AI_THINKING_TIME_MS"
        by blast
      from j have "k \<le> j \<and> j < k + length (m # ms) \<and> clock j - clock 0 > AI_THINKING_TIME_MS"
        by simp
      then have "\<exists>j. k \<le> j \<and> j < k + length (m # ms) \<and> clock j - clock 0 > AI_THINKING_TIME_MS" ..
      with r o have "?T (m # ms) k cur bv tt"
        unfolding step' by blast
      then show ?thesis ..
    next
      assume "?C ms (Suc k) cur1 bv1 t'"
      then obtain cur' bv' tt' where
        r: "rootLoop Z clock g b depth rootHash ms (Suc k, cur1, bv1, t')
            = Inr (Completed (Suc k + length ms) cur' bv' tt')" and o: "tt_ok tt'"
        and i: "rootInv ?M cur' bv'" and n: "ms \<noteq> [] \<or> cur1 \<noteq> None \<longrightarrow> cur' \<noteq> None"
        and j: "\<forall>j. Suc k \<le> j \<and> j < Suc k + length ms \<longrightarrow> \<not> clock j - clock 0 > AI_THINKING_TIME_MS"
        by blast
      have r': "rootLoop Z clock g b depth rootHash (m # ms) (k, cur, bv, tt)
            = Inr (Completed (k + length (m # ms)) cur' bv' tt')"
        unfolding step' r by simp
      have n': "m # ms \<noteq> [] \<or> cur \<noteq> None \<longrightarrow> cur' \<noteq> None" using n c1 by simp
      have j': "\<forall>j. k \<le> j \<and> j < k + length (m # ms) \<longrightarrow> \<not> clock j - clock 0 > AI_THINKING_TIME_MS"
      proof (intro allI impI)
        fix j assume a: "k \<le> j \<and> j < k + length (m # ms)"
        show "\<not> clock j - clock 0 > AI_THINKING_TIME_MS"
        proof (cases "j = k")
          case True
          with False show ?thesis by simp
        next
          case ne: False
          with a have "Suc k \<le> j \<and> j < Suc k + length ms" by simp
          with j show ?thesis by blast
        qed
      qed
      from r' o i n' j' have "?C (m # ms) k cur bv tt" by blast
      then show ?thesis ..
    qed
  qed
qed

lemma depthLoop_step:
  assumes g: "wf_game g" and b: "board g = Some b"
    and ne: "getAllPossibleMovesForPlayer b (currentPlayer g) \<noteq> []"
    and bm: "bm \<in> set (getAllPossibleMovesForPlayer b (currentPlayer g))"
    and tt: "tt_ok tt" and d: "depth \<le> MAX_SEARCH_DEPTH"
  shows "(\<exists>tt'. depthLoop Z clock g b (getAllPossibleMovesForPlayer b (currentPlayer g)) depth
              (k, Some bm, tt) = Inr (Some bm, tt') \<and> tt_ok tt' \<and>
            (\<exists>j. k \<le> j \<and> j < k + length (getAllPossibleMovesForPlayer b (currentPlayer g)) \<and>
                 clock j - clock 0 > AI_THINKING_TIME_MS)) \<or>
         (\<exists>m tt'. m \<in> set (getAllPossibleMovesForPlayer b (currentPlayer g)) \<and> tt_ok tt' \<and>
            (\<forall>j. k \<le> j \<and> j < k + length (getAllPossibleMovesForPlayer b (currentPlayer g)) \<longrightarrow>
                 \<not> clock j - clock 0 > AI_THINKING_TIME_MS) \<and>
            depthLoop Z clock g b (getAllPossibleMovesForPlayer b (currentPlayer g)) depth
              (k, Some bm, tt) =
            (if clock (k + length (getAllPossibleMovesForPlayer b (currentPlayer g))) - clock 0
                  > AI_THINKING_TIME_MS
             then Inr (Some m, tt')
             else depthLoop Z clock g b (getAllPossibleMovesForPlayer b (currentPlayer g)) (depth + 1)
                    (Suc (k + length (getAllPossibleMovesForPlayer b (currentPlayer g))), Some m, tt')))"
proof -
  let ?ms = "getAllPossibleMovesForPlayer b (currentPlayer g)"
  from prioritize_ok [OF ne, of bm] obtain ms where
    p: "prioritize ?ms (Some bm) = Inr ms" and s: "set ms = set ?ms" and n: "ms \<noteq> []"
    and l: "length ms = length ?ms" by blast
  have inv: "rootInv (set ?ms) None NegInf" by (simp add: rootInv_def)
  from s have sub: "set ms \<subseteq> set ?ms" by simp
  have unf: "depthLoop Z clock g b ?ms depth (k, Some bm, tt) =
     (case rootLoop Z clock g b depth (calculateZobristKey Z b (currentPlayer g)) ms (k, None, NegInf, tt) of
        Inl e \<Rightarrow> Inl e
      | Inr (TimedOut tt') \<Rightarrow> Inr (Some bm, tt')
      | Inr (Completed k' currentBestMoveForDepth bestValueForDepth tt') \<Rightarrow>
          if clock k' - clock 0 > AI_THINKING_TIME_MS
          then Inr (currentBestMoveForDepth, tt')
          else depthLoop Z clock g b ?ms (depth + 1) (Suc k', currentBestMoveForDepth, tt'))"
    by (subst depthLoop.simps) (simp only: d if_True p sum.case Let_def)
  from rootLoop_ok [OF g b sub tt inv, of Z clock depth "calculateZobristKey Z b (currentPlayer g)" k]
  show ?thesis
  proof (elim disjE exE conjE)
    fix tt' j
    assume r: "rootLoop Z clock g b depth (calculateZobristKey Z b (currentPlayer g)) ms
                (k, None, NegInf, tt) = Inr (TimedOut tt')"
      and o: "tt_ok tt'" and j: "k \<le> j" "j < k + length ms"
         "clock j - clock 0 > AI_THINKING_TIME_MS"
    have "depthLoop Z clock g b ?ms depth (k, Some bm, tt) = Inr (Some bm, tt')"
      unfolding unf r by simp
    with o j l show ?thesis by auto
  next
    fix cur' bv' tt'
    assume r: "rootLoop Z clock g b depth (calculateZobristKey Z b (currentPlayer g)) ms
                (k, None, NegInf, tt) = Inr (Completed (k + length ms) cur' bv' tt')"
      and o: "tt_ok tt'" and i: "rootInv (set ?ms) cur' bv'"
      and c: "ms \<noteq> [] \<or> None \<noteq> None \<longrightarrow> cur' \<noteq> None"
      and j: "\<forall>j. k \<le> j \<and> j < k + length ms \<longrightarrow> \<not> clock j - clock 0 > AI_THINKING_TIME_MS"
    from c n i obtain m where m: "cur' = Some m" "m \<in> set ?ms" by (auto simp: rootInv_def)
    have "depthLoop Z clock g b ?ms depth (k, Some bm, tt) =
            (if clock (k + length ?ms) - clock 0 > AI_THINKING_TIME_MS
             then Inr (Some m, tt')
             else depthLoop Z clock g b ?ms (depth + 1) (Suc (k + length ?ms), Some m, tt'))"
      unfolding unf r m l by simp
    with m o j l show ?thesis by auto
  qed
qed

lemma depthLoop_ok:
  assumes g: "wf_game g" and b: "board g = Some b"
    and ne: "getAllPossibleMovesForPlayer b (currentPlayer g) \<noteq> []"
  shows "bm \<in> set (getAllPossibleMovesForPlayer b (currentPlayer g)) \<Longrightarrow> tt_ok tt \<Longrightarrow>
         \<exists>m tt'. depthLoop Z clock g b (getAllPossibleMovesForPlayer b (currentPlayer g)) depth
              (k, Some bm, tt) = Inr (Some m, tt') \<and>
            m \<in> set (getAllPossibleMovesForPlayer b (currentPlayer g)) \<and> tt_ok tt'"
proof (induction "Suc MAX_SEARCH_DEPTH - depth" arbitrary: depth k bm tt)
  case 0
  then have "\<not> depth \<le> MAX_SEARCH_DEPTH" by simp
  then have "depthLoop Z clock g b (getAllPossibleMovesForPlayer b (currentPlayer g)) depth
              (k, Some bm, tt) = Inr (Some bm, tt)"
    by (subst depthLoop.simps) simp
  with 0 show ?case by simp
next
  case (Suc n)
  let ?ms = "getAllPossibleMovesForPlayer b (currentPlayer g)"
  from Suc(2) have d: "depth \<le> MAX_SEARCH_DEPTH" and n: "n = Suc MAX_SEARCH_DEPTH - (depth + 1)"
    by simp_all
  from depthLoop_step [OF g b ne Suc.prems(1) Suc.prems(2) d, of Z clock k]
  show ?case
  proof (elim disjE exE conjE)
    fix tt' j
    assume "depthLoop Z clock g b ?ms depth (k, Some bm, tt) = Inr (Some bm, tt')" "tt_ok tt'"
    with Suc.prems(1) show ?thesis by blast
  next
    fix m tt'
    assume m: "m \<in> set ?ms" and o: "tt_ok tt'"
      and e: "depthLoop Z clock g b ?ms depth (k, Some bm, tt) =
            (if clock (k + length ?ms) - clock 0 > AI_THINKING_TIME_MS
             then Inr (Some m, tt')
             else depthLoop Z clock g b ?ms (depth + 1) (Suc (k + length ?ms), Some m, tt'))"
    show ?thesis
    proof (cases "clock (k + length ?ms) - clock 0 > AI_THINKING_TIME_MS")
      case True
      with e m o show ?thesis by simp
    next
      case False
      from Suc(1) [OF n m o, of "Suc (k + length ?ms)"] e False show ?thesis by simp
    qed
  qed
qed

lemma depthLoop_timeout:
  assumes g: "wf_game g" and b: "board g = Some b"
    and ne: "getAllPossibleMovesForPlayer b (currentPlayer g) \<noteq> []"
    and bm: "bm \<in> set (getAllPossibleMovesForPlayer b (currentPlayer g))"
    and tt: "tt_ok tt" and d: "depth \<le> MAX_SEARCH_DEPTH"
    and j: "k \<le> j" "j < k + length (getAllPossibleMovesForPlayer b (currentPlayer g))"
       "clock j - clock 0 > AI_THINKING_TIME_MS"
  shows "\<exists>tt'. depthLoop Z clock g b (getAllPossibleMovesForPlayer b (currentPlayer g)) depth
              (k, Some bm, tt) = Inr (Some bm, tt')"
  using depthLoop_step [OF g b ne bm tt d, of Z clock k] j by blast

lemma alphaBetaSearch_leaf:
  assumes "tt h = None" and "board g = Some b"
  shows "alphaBetaSearch Z g 0 a be isMax ai h tt =
         (case evaluateBoard g ai of Inl e \<Rightarrow> Inl e | Inr v \<Rightarrow> Inr (v, tt))"
  using assms by (subst alphaBetaSearch.simps) (simp add: ttProbe_def)

lemma maxLoop_beta:
  "maxLoop Z search g b h ms (bv, a, be, tt) = Inr (bv', a', be', tt') \<Longrightarrow> be' = be"
proof (induction ms arbitrary: bv a tt)
  case Nil
  then show ?case by simp
next
  case (Cons m ms)
  then show ?case
    by (auto simp: Let_def split: sum.splits if_splits prod.splits)
qed

lemma js_min_mono:
  assumes "js_le x y" and "isFin e"
  shows "js_le (js_min x e) (js_min y e)"
proof -
  from assms(2) obtain q where e: "e = Fin q" by (auto elim: isFinE)
  from assms(1) show ?thesis unfolding e
    by (cases x; cases y) (auto simp: js_le_def js_min_def)
qed

lemma minLoop_le:
  assumes s: "search_ok search" and g: "wf_game g" and b: "board g = Some b"
  shows "set ms \<subseteq> set (getAllPossibleMovesForPlayer b (currentPlayer g)) \<Longrightarrow> tt_ok tt \<Longrightarrow>
         js_le beta bestValue \<Longrightarrow>
         minLoop Z search g b h ms (bestValue, alpha, beta, tt) = Inr (bv, a', be', tt') \<Longrightarrow>
         js_le be' bv"
proof (induction ms arbitrary: bestValue beta tt)
  case Nil
  then show ?case by simp
next
  case (Cons m ms)
  from Cons.prems(1) have m: "m \<in> set (getAllPossibleMovesForPlayer b (currentPlayer g))"
    and ms: "set ms \<subseteq> set (getAllPossibleMovesForPlayer b (currentPlayer g))" by simp_all
  from child_wf [OF g b m] obtain sim where
    sim: "simulateFullMove (fromRow m) (fromCol m) (toRow m) (toCol m) (currentPlayer g) b = Inr sim"
    and cw: "wf_game (childOf g sim)" and gf: "isFin (aiScoreGain sim)" by blast
  from s cw Cons.prems(2) obtain v t' where
    sr: "search (childOf g sim) alpha beta (nextHashOf Z h m) tt = Inr (v, t')"
    and vf: "isFin v" and t': "tt_ok t'" unfolding search_ok_def by blast
  define ev where "ev = js_add (js_neg (aiScoreGain sim)) v"
  have evf: "isFin ev" unfolding ev_def by (rule js_add_Fin [OF js_neg_Fin [OF gf] vf])
  have le: "js_le (js_min beta ev) (js_min bestValue ev)"
    by (rule js_min_mono [OF Cons.prems(3) evf])
  show ?case
  proof (cases "js_le (js_min beta ev) alpha")
    case True
    with sim sr have "minLoop Z search g b h (m # ms) (bestValue, alpha, beta, tt) =
        Inr (js_min bestValue ev, alpha, js_min beta ev, t')"
      by (simp add: Let_def ev_def)
    with Cons.prems(4) le show ?thesis by simp
  next
    case False
    with sim sr have "minLoop Z search g b h (m # ms) (bestValue, alpha, beta, tt) =
        minLoop Z search g b h ms (js_min bestValue ev, alpha, js_min beta ev, t')"
      by (simp add: Let_def ev_def)
    with Cons.prems(4) have "minLoop Z search g b h ms (js_min bestValue ev, alpha, js_min beta ev, t')
        = Inr (bv, a', be', tt')" by simp
    from Cons.IH [OF ms t' le this] show ?thesis .
  qed
qed

lemma choice_sims:
  "simulateFullMove 1 0 0 0 White choiceBoard =
     Inr \<lparr>tempBoard = Some choiceBoardLeft, aiScoreGain = Fin 5,
          leadsToChoiceForThisPlayer = True\<rparr>"
  "simulateFullMove 1 0 0 1 White choiceBoard =
     Inr \<lparr>tempBoard = Some choiceBoardRight, aiScoreGain = Fin 5,
          leadsToChoiceForThisPlayer = True\<rparr>"
  by code_simp+

lemma choice_moves:
  "getAllPossibleMovesForPlayer choiceBoard White = [choiceMoveLeft, choiceMoveRight]"
  by code_simp

lemma choice_hasValidMoves: "hasValidMoves choiceBoard White"
  by code_simp

lemma choice_evals:
  "evaluateBoard (choiceChild choiceBoardLeft) White = Inr (Fin (77 / 10))"
  "evaluateBoard (choiceChild choiceBoardRight) White = Inr (Fin (77 / 10))"
  by code_simp+

lemma choice_children:
  "childOf choiceGame \<lparr>tempBoard = Some b', aiScoreGain = Fin 5,
          leadsToChoiceForThisPlayer = l\<rparr> = choiceChild b'"
  by (simp add: childOf_def choiceGame_def choiceChild_def)

lemma lone_facts:
  "simulateFullMove 6 0 5 0 White loneBoard =
     Inr \<lparr>tempBoard = Some loneBoardStepped, aiScoreGain = Fin 0,
          leadsToChoiceForThisPlayer = False\<rparr>"
  "simulateFullMove 6 0 5 1 White loneBoard =
     Inr \<lparr>tempBoard = Some loneBoardSidestepped, aiScoreGain = Fin 0,
          leadsToChoiceForThisPlayer = False\<rparr>"
  "getAllPossibleMovesForPlayer loneBoard White =
     [\<lparr>fromRow = 6, fromCol = 0, toRow = 5, toCol = 0, piece = mkPiece White 5\<rparr>,
      \<lparr>fromRow = 6, fromCol = 0, toRow = 5, toCol = 1, piece = mkPiece White 5\<rparr>]"
  "hasValidMoves loneBoard White"
  "evaluateBoard (loneChild loneBoardStepped) Black = Inr (Fin (- (1 / 5)))"
  "evaluateBoard (loneChild loneBoardSidestepped) Black = Inr (Fin (- (1 / 5)))"
  by code_simp+

lemma lone_children:
  "childOf loneGame \<lparr>tempBoard = Some b', aiScoreGain = Fin 0,
          leadsToChoiceForThisPlayer = l\<rparr> = loneChild b'"
  by (simp add: childOf_def loneGame_def loneChild_def)

lemma min_node_stores_lowerbound:
  "alphaBetaSearch Z loneGame 1 NegInf PosInf False Black h Map.empty =
     Inr (Fin (- (1 / 5)),
          Map.empty(h \<mapsto> \<lparr>entryValue = Fin (- (1 / 5)), entryDepth = 1,
                             entryFlag = LOWERBOUND\<rparr>))"
proof -
  have b: "board loneGame = Some loneBoard" and c: "currentPlayer loneGame = White"
    and l: "board (loneChild loneBoardStepped) = Some loneBoardStepped"
    and r: "board (loneChild loneBoardSidestepped) = Some loneBoardSidestepped"
    and go: "\<not> gameOver loneGame"
    by (simp_all add: loneGame_def loneChild_def)
  show ?thesis
    using lone_facts(1,2)
    by (subst alphaBetaSearch.simps)
       (simp add: ttProbe_def b c lone_facts(3-) lone_children
          alphaBetaSearch_leaf [OF _ l] alphaBetaSearch_leaf [OF _ r]
          js_min_def js_le_def js_ge_def go Let_def)
qed

subsection \<open>Claims about the search\<close>

text \<open>
  With finite scores the top-level search returns a legal move whenever there is one.
  This is a statement about this model, in which a sum or difference of finite numbers
  is the exact rational and so is finite: it carries over to the program for scores whose
  sums stay inside the range of the doubles, and not beyond (a difference of two finite
  scores that overflows is an infinity in the program).  On a well-formed game state, with
  any clock, any table of finite values and any random draw in [0, 1): when the side to
  move has no legal move the search returns the no-move result, and when it has one the
  search returns a move \<open>m\<close> of that side's move list: \<open>m\<close> starts on a square
  holding the mover's piece, ends on one of its step targets, and its simulation is not
  the invalid-move sentinel.  If one of the clock readings taken before the root moves of
  depth 1 is past the thinking time, the move returned is the candidate drawn before the
  search began.
\<close>

lemma findBestMove_legal_with_finite_scores:
  assumes g: "wf_game g" and b: "board g = Some b" and tt: "tt_ok tt"
    and u: "0 \<le> u" "u < 1"
  shows "(getAllPossibleMovesForPlayer b (currentPlayer g) = [] \<longrightarrow>
            findBestMoveWithAlphaBeta Z clock u g tt = Inr (None, tt)) \<and>
         (getAllPossibleMovesForPlayer b (currentPlayer g) \<noteq> [] \<longrightarrow>
            (\<exists>m tt'. findBestMoveWithAlphaBeta Z clock u g tt = Inr (Some m, tt') \<and>
               m \<in> set (getAllPossibleMovesForPlayer b (currentPlayer g)) \<and>
               cell b (fromRow m) (fromCol m) = Some (piece m) \<and>
               color (piece m) = currentPlayer g \<and>
               (toRow m, toCol m) \<in> set (getValidMoves b (fromRow m) (fromCol m)) \<and>
               \<not> isInvalidMove (simulateFullMove (fromRow m) (fromCol m) (toRow m) (toCol m)
                                  (currentPlayer g) b) \<and>
               ((\<exists>j. 1 \<le> j \<and> j \<le> length (getAllPossibleMovesForPlayer b (currentPlayer g)) \<and>
                     clock j - clock 0 > AI_THINKING_TIME_MS) \<longrightarrow>
                m = getAllPossibleMovesForPlayer b (currentPlayer g) !
                      nat \<lfloor>u * of_nat (length (getAllPossibleMovesForPlayer b (currentPlayer g)))\<rfloor>)))"
proof (intro conjI impI)
  assume "getAllPossibleMovesForPlayer b (currentPlayer g) = []"
  then show "findBestMoveWithAlphaBeta Z clock u g tt = Inr (None, tt)"
    by (simp add: findBestMoveWithAlphaBeta_def b)
next
  let ?ms = "getAllPossibleMovesForPlayer b (currentPlayer g)"
  let ?i = "\<lfloor>u * of_nat (length ?ms)\<rfloor>"
  assume ne: "?ms \<noteq> []"
  then have "0 < length ?ms" by simp
  from random_index [OF u this] have i: "0 \<le> ?i" "?i < int (length ?ms)" by simp_all
  then have n: "nat ?i < length ?ms" by linarith
  then have bm: "?ms ! nat ?i \<in> set ?ms" by simp
  have unf: "findBestMoveWithAlphaBeta Z clock u g tt =
             depthLoop Z clock g b ?ms 1 (1, Some (?ms ! nat ?i), tt)"
    using ne i by (simp add: findBestMoveWithAlphaBeta_def b Let_def)
  from depthLoop_ok [OF g b ne bm tt, of Z clock 1 1] obtain m tt' where
    r: "depthLoop Z clock g b ?ms 1 (1, Some (?ms ! nat ?i), tt) = Inr (Some m, tt')"
    and m: "m \<in> set ?ms" by blast
  from moves_props [OF m] have p: "cell b (fromRow m) (fromCol m) = Some (piece m)"
    and c: "color (piece m) = currentPlayer g"
    and t: "(toRow m, toCol m) \<in> set (stepTargets b (fromRow m) (fromCol m) (currentPlayer g))"
    by simp_all
  from p c t have v: "(toRow m, toCol m) \<in> set (getValidMoves b (fromRow m) (fromCol m))"
    by (simp add: getValidMoves_def)
  from child_wf [OF g b m] have s: "\<not> isInvalidMove (simulateFullMove (fromRow m) (fromCol m)
       (toRow m) (toCol m) (currentPlayer g) b)" by auto
  have e: "m = ?ms ! nat ?i"
    if "\<exists>j. 1 \<le> j \<and> j \<le> length ?ms \<and> clock j - clock 0 > AI_THINKING_TIME_MS"
  proof -
    from that obtain j where j: "1 \<le> j" "j < 1 + length ?ms"
      "clock j - clock 0 > AI_THINKING_TIME_MS" by auto
    have d: "1 \<le> MAX_SEARCH_DEPTH" by (simp add: MAX_SEARCH_DEPTH_def)
    from depthLoop_timeout [OF g b ne bm tt d j, of Z] r show ?thesis by auto
  qed
  show "\<exists>m tt'. findBestMoveWithAlphaBeta Z clock u g tt = Inr (Some m, tt') \<and>
               m \<in> set ?ms \<and>
               cell b (fromRow m) (fromCol m) = Some (piece m) \<and>
               color (piece m) = currentPlayer g \<and>
               (toRow m, toCol m) \<in> set (getValidMoves b (fromRow m) (fromCol m)) \<and>
               \<not> isInvalidMove (simulateFullMove (fromRow m) (fromCol m) (toRow m) (toCol m)
                                  (currentPlayer g) b) \<and>
               ((\<exists>j. 1 \<le> j \<and> j \<le> length ?ms \<and>
                     clock j - clock 0 > AI_THINKING_TIME_MS) \<longrightarrow>
                m = ?ms ! nat ?i)"
    using unf r m p c v s e by (intro exI [of _ m] exI [of _ tt']) simp
qed

lemma findBestMove_candidate_on_expired_clock:
  "wf_game loneGame \<and> board loneGame = Some loneBoard \<and> tt_ok Map.empty \<and>
   getAllPossibleMovesForPlayer loneBoard White =
     [\<lparr>fromRow = 6, fromCol = 0, toRow = 5, toCol = 0, piece = mkPiece White 5\<rparr>,
      \<lparr>fromRow = 6, fromCol = 0, toRow = 5, toCol = 1, piece = mkPiece White 5\<rparr>] \<and>
   expiredClock 1 - expiredClock 0 > AI_THINKING_TIME_MS \<and>
   (\<forall>Z. \<exists>tt'. findBestMoveWithAlphaBeta Z expiredClock 0 loneGame Map.empty =
        Inr (Some \<lparr>fromRow = 6, fromCol = 0, toRow = 5, toCol = 0, piece = mkPiece White 5\<rparr>, tt'))"
proof -
  have "wf_board loneBoard" by code_simp
  then have wf: "wf_game loneGame" by (simp add: wf_game_def loneGame_def)
  have b: "board loneGame = Some loneBoard" by (simp add: loneGame_def)
  have cp: "currentPlayer loneGame = White" by (simp add: loneGame_def)
  have tt: "tt_ok Map.empty" by (simp add: tt_ok_def)
  have ms: "getAllPossibleMovesForPlayer loneBoard White =
     [\<lparr>fromRow = 6, fromCol = 0, toRow = 5, toCol = 0, piece = mkPiece White 5\<rparr>,
      \<lparr>fromRow = 6, fromCol = 0, toRow = 5, toCol = 1, piece = mkPiece White 5\<rparr>]" by code_simp
  have ex: "expiredClock 1 - expiredClock 0 > AI_THINKING_TIME_MS" by (simp add: expiredClock_def)
  have "\<exists>tt'. findBestMoveWithAlphaBeta Z expiredClock 0 loneGame Map.empty =
        Inr (Some \<lparr>fromRow = 6, fromCol = 0, toRow = 5, toCol = 0, piece = mkPiece White 5\<rparr>, tt')"
    for Z
  proof -
    have j: "\<exists>j. 1 \<le> j \<and> j \<le> length (getAllPossibleMovesForPlayer loneBoard (currentPlayer loneGame)) \<and>
                     expiredClock j - expiredClock 0 > AI_THINKING_TIME_MS"
      using ex by (intro exI [of _ 1]) (simp add: cp ms)
    from findBestMove_legal_with_finite_scores [OF wf b tt, of 0 Z expiredClock] j
    show ?thesis by (auto simp: cp ms)
  qed
  with wf b tt ms ex show ?thesis by blast
qed

text \<open>
  The search on the position sent without scores.  Every root move of depth 1 is valued
  NaN, no comparison \<^verbatim>\<open>moveValue > bestValueForDepth\<close> holds, and the depth ends
  with \<^verbatim>\<open>currentBestMoveForDepth\<close> still \<^verbatim>\<open>null\<close>.
\<close>

lemma scoreless_evals:
  "evaluateBoard (scorelessChild loneBoardStepped) White = Inr NaN"
  "evaluateBoard (scorelessChild loneBoardSidestepped) White = Inr NaN"
  by code_simp+

lemma scoreless_children:
  "childOf scorelessGame \<lparr>tempBoard = Some b', aiScoreGain = Fin 0,
          leadsToChoiceForThisPlayer = l\<rparr> = scorelessChild b'"
  by (simp add: childOf_def scorelessGame_def scorelessChild_def)

lemma scoreless_rootLoop:
  "rootLoop Z clock scorelessGame loneBoard 1 h [loneMoveAside, loneMoveAhead]
       (1, None, NegInf, Map.empty) =
     (if clock 1 - clock 0 > AI_THINKING_TIME_MS \<or> clock 2 - clock 0 > AI_THINKING_TIME_MS
      then Inr (TimedOut Map.empty)
      else Inr (Completed 3 None NegInf Map.empty))"
proof -
  have c: "currentPlayer scorelessGame = White"
    and l: "board (scorelessChild loneBoardStepped) = Some loneBoardStepped"
    and r: "board (scorelessChild loneBoardSidestepped) = Some loneBoardSidestepped"
    by (simp_all add: scorelessGame_def scorelessChild_def)
  show ?thesis
    using lone_facts(1,2)
    by (simp add: loneMoveAhead_def loneMoveAside_def c scoreless_children
          alphaBetaSearch_leaf [OF _ l] alphaBetaSearch_leaf [OF _ r] scoreless_evals
          js_gt_def numeral_3_eq_3 numeral_2_eq_2)
qed

lemma scoreless_prioritize:
  "getAllPossibleMovesForPlayer loneBoard White = [loneMoveAhead, loneMoveAside]"
  "prioritize [loneMoveAhead, loneMoveAside] (Some loneMoveAside) =
     Inr [loneMoveAside, loneMoveAhead]"
  "prioritize [loneMoveAhead, loneMoveAside] None = Inl TypeError"
  by code_simp+

text \<open>
  Claim C1.  The claim is for every game state in which the side to move has a legal
  move.  On \<open>scorelessGame\<close> White has two legal moves, and the search does not return
  one of them: the depth-1 result \<^verbatim>\<open>null\<close> overwrites the candidate drawn before
  the search, and then, with a clock that never runs out, the move ordering of depth 2
  reads \<^verbatim>\<open>bestMoveSoFar.fromRow\<close> and raises a TypeError; with a clock that runs
  out once depth 1 is complete, the search returns \<^verbatim>\<open>null\<close>, the no-move result.
\<close>

theorem search_fails_without_scores:
  "getAllPossibleMovesForPlayer loneBoard (currentPlayer scorelessGame)
     = [loneMoveAhead, loneMoveAside] \<and>
   findBestMoveWithAlphaBeta Z startClock (1 / 2) scorelessGame Map.empty = Inl TypeError \<and>
   findBestMoveWithAlphaBeta Z lateClock (1 / 2) scorelessGame Map.empty = Inr (None, Map.empty)"
proof -
  have b: "board scorelessGame = Some loneBoard" and c: "currentPlayer scorelessGame = White"
    by (simp_all add: scorelessGame_def)
  have d1: "(1::nat) \<le> MAX_SEARCH_DEPTH" and d2: "(2::nat) \<le> MAX_SEARCH_DEPTH"
    by (simp_all add: MAX_SEARCH_DEPTH_def)
  have start: "findBestMoveWithAlphaBeta Z clock (1 / 2) scorelessGame Map.empty =
      depthLoop Z clock scorelessGame loneBoard [loneMoveAhead, loneMoveAside] 1
        (1, Some loneMoveAside, Map.empty)" for clock
    by (simp add: findBestMoveWithAlphaBeta_def b c scoreless_prioritize(1) Let_def)
  have depth2: "depthLoop Z clock scorelessGame loneBoard [loneMoveAhead, loneMoveAside] d
        (k, None, Map.empty) = Inl TypeError" if "d \<le> MAX_SEARCH_DEPTH" for clock k d
    using that by (subst depthLoop.simps) (simp add: scoreless_prioritize(3))
  have depth1: "depthLoop Z clock scorelessGame loneBoard [loneMoveAhead, loneMoveAside] 1
        (1, Some loneMoveAside, Map.empty) =
      (if clock 1 - clock 0 > AI_THINKING_TIME_MS \<or> clock 2 - clock 0 > AI_THINKING_TIME_MS
       then Inr (Some loneMoveAside, Map.empty)
       else if clock 3 - clock 0 > AI_THINKING_TIME_MS then Inr (None, Map.empty)
       else Inl TypeError)" for clock
    using scoreless_rootLoop [of Z clock "calculateZobristKey Z loneBoard White"]
      depth2 [of "Suc (Suc 0)" clock] d1
    by (subst depthLoop.simps)
       (simp add: c scoreless_prioritize(2) MAX_SEARCH_DEPTH_def del: rootLoop.simps)
  show ?thesis
    using depth1 [of startClock] depth1 [of lateClock]
    by (simp add: c scoreless_prioritize(1) start startClock_def lateClock_def
          AI_THINKING_TIME_MS_def)
qed

text \<open>
  Claim C6.  On \<open>choiceBoard\<close> either step of the White 5 promotes it with two Black 5s
  to choose from: the simulation gains 5 points and raises the choice flag.  The root loop
  does not recurse into such a move at any depth and values it at the 5 points gained.  The
  recursive node does not look at the flag: a maximizing node of depth 1 on the same
  position recurses into both moves and values them at the 5 points plus the evaluation
  of the child position, 127/10 in all, and stores that value.
\<close>

theorem inner_node_searches_choice_move:
  "simulateFullMove 1 0 0 0 White choiceBoard =
     Inr \<lparr>tempBoard = Some choiceBoardLeft, aiScoreGain = Fin 5,
          leadsToChoiceForThisPlayer = True\<rparr> \<and>
   simulateFullMove 1 0 0 1 White choiceBoard =
     Inr \<lparr>tempBoard = Some choiceBoardRight, aiScoreGain = Fin 5,
          leadsToChoiceForThisPlayer = True\<rparr> \<and>
   getAllPossibleMovesForPlayer choiceBoard White = [choiceMoveLeft, choiceMoveRight] \<and>
   rootLoop Z startClock choiceGame choiceBoard depth h [choiceMoveLeft, choiceMoveRight]
       (1, None, NegInf, Map.empty) =
     Inr (Completed 3 (Some choiceMoveLeft) (Fin 5) Map.empty) \<and>
   alphaBetaSearch Z choiceGame 1 NegInf PosInf True White h Map.empty =
     Inr (Fin (127 / 10),
          Map.empty(h \<mapsto> \<lparr>entryValue = Fin (127 / 10), entryDepth = 1, entryFlag = EXACT\<rparr>))"
proof (intro conjI)
  show "rootLoop Z startClock choiceGame choiceBoard depth h [choiceMoveLeft, choiceMoveRight]
       (1, None, NegInf, Map.empty) =
     Inr (Completed 3 (Some choiceMoveLeft) (Fin 5) Map.empty)"
    using choice_sims
    by (simp add: startClock_def AI_THINKING_TIME_MS_def choiceMoveLeft_def choiceMoveRight_def
          choiceGame_def js_gt_def numeral_3_eq_3)
next
  have b: "board choiceGame = Some choiceBoard" and c: "currentPlayer choiceGame = White"
    and l: "board (choiceChild choiceBoardLeft) = Some choiceBoardLeft"
    and r: "board (choiceChild choiceBoardRight) = Some choiceBoardRight"
    and go: "\<not> gameOver choiceGame"
    by (simp_all add: choiceGame_def choiceChild_def)
  show "alphaBetaSearch Z choiceGame 1 NegInf PosInf True White h Map.empty =
     Inr (Fin (127 / 10),
          Map.empty(h \<mapsto> \<lparr>entryValue = Fin (127 / 10), entryDepth = 1, entryFlag = EXACT\<rparr>))"
    using choice_sims
    by (subst alphaBetaSearch.simps)
       (simp add: ttProbe_def b c choice_hasValidMoves choice_moves choiceMoveLeft_def
          choiceMoveRight_def choice_children
          alphaBetaSearch_leaf [OF _ l] alphaBetaSearch_leaf [OF _ r] choice_evals
          js_max_def js_le_def js_ge_def go Let_def)
qed (rule choice_sims choice_moves)+

text \<open>
  Claim C7.  A node that searches its moves, with no entry for its position in the table,
  stores its value with its depth and a flag.  At a maximizing node the flag is the one the
  specification words: UPPERBOUND if the value is at most the original alpha, LOWERBOUND if
  it is at least the original beta, EXACT otherwise.  At a minimizing node the loop has
  lowered beta to the value it returns, and the comparison against that beta always holds:
  the flag is UPPERBOUND if the value is at most the original alpha and LOWERBOUND
  otherwise, never EXACT.
\<close>

theorem stored_flag_by_node_kind:
  assumes g: "wf_game g" and b: "board g = Some b" and tt: "tt_ok tt" and fresh: "tt h = None"
    and d: "0 < depth" and go: "\<not> gameOver g" and hv: "hasValidMoves b (currentPlayer g)"
    and be: "beta \<noteq> NaN"
  shows "\<exists>v tt'. alphaBetaSearch Z g depth alpha beta isMax ai h tt = Inr (v, tt') \<and> isFin v \<and>
           tt' h = Some \<lparr>entryValue = v, entryDepth = depth,
                         entryFlag = (if isMax then specFlag v alpha beta
                                      else if js_le v alpha then UPPERBOUND else LOWERBOUND)\<rparr>"
proof -
  let ?moves = "getAllPossibleMovesForPlayer b (currentPlayer g)"
  from d obtain d' where d': "depth = Suc d'" by (cases depth) simp_all
  from hv have ne: "?moves \<noteq> []" by (simp add: hasValidMoves_iff)
  have sok: "search_ok (\<lambda>cg a b' h t. alphaBetaSearch Z cg (depth - 1) a b' mx ai h t)" for mx
    unfolding search_ok_def using alphaBetaSearch_Fin by blast
  have probe: "ttProbe (tt h) depth alpha beta = Window alpha beta"
    by (simp add: ttProbe_def fresh)
  show ?thesis
  proof (cases isMax)
    case True
    from maxLoop_Fin [where bestValue = NegInf and alpha = alpha and beta = beta and Z = Z and h = h,
        OF sok [of False] g b subset_refl tt] ne
    obtain bv a' be' tt' where
      l: "maxLoop Z (\<lambda>cg a b' h t. alphaBetaSearch Z cg (depth - 1) a b' False ai h t) g b h ?moves
            (NegInf, alpha, beta, tt) = Inr (bv, a', be', tt')"
      and f: "isFin bv" by auto
    from maxLoop_beta [OF l] have e: "be' = beta" .
    from probe b go hv d True l f e show ?thesis
      by (subst alphaBetaSearch.simps) (simp add: Let_def specFlag_def)
  next
    case nm: False
    from minLoop_Fin [where bestValue = PosInf and alpha = alpha and beta = beta and Z = Z and h = h,
        OF sok [of True] g b subset_refl tt] ne
    obtain bv a' be' tt' where
      l: "minLoop Z (\<lambda>cg a b' h t. alphaBetaSearch Z cg (depth - 1) a b' True ai h t) g b h ?moves
            (PosInf, alpha, beta, tt) = Inr (bv, a', be', tt')"
      and f: "isFin bv" by auto
    have "js_le beta PosInf" using be by (cases beta) (simp_all add: js_le_def)
    from minLoop_le [OF sok [of True] g b subset_refl tt this l]
    have ge: "js_ge bv be'" by (simp add: js_ge_def)
    from probe b go hv d nm l f ge show ?thesis
      by (subst alphaBetaSearch.simps) (simp add: Let_def)
  qed
qed

theorem stored_flag_by_node_kind_witness:
  "wf_game loneGame \<and> board loneGame = Some loneBoard \<and> tt_ok Map.empty \<and>
   \<not> gameOver loneGame \<and> hasValidMoves loneBoard (currentPlayer loneGame) \<and>
   (\<forall>Z h. \<exists>v tt' e.
      alphaBetaSearch Z loneGame 1 NegInf PosInf False Black h Map.empty = Inr (v, tt') \<and>
      tt' h = Some e \<and> entryValue e = v \<and> entryFlag e = LOWERBOUND \<and>
      specFlag v NegInf PosInf = EXACT)"
proof -
  have "wf_board loneBoard" by code_simp
  then have wf: "wf_game loneGame" by (simp add: wf_game_def loneGame_def)
  have b: "board loneGame = Some loneBoard" by (simp add: loneGame_def)
  have tt: "tt_ok Map.empty" by (simp add: tt_ok_def)
  have go: "\<not> gameOver loneGame" by (simp add: loneGame_def)
  have "hasValidMoves loneBoard White" by code_simp
  then have hv: "hasValidMoves loneBoard (currentPlayer loneGame)" by (simp add: loneGame_def)
  have "\<exists>v tt' e.
      alphaBetaSearch Z loneGame 1 NegInf PosInf False Black h Map.empty = Inr (v, tt') \<and>
      tt' h = Some e \<and> entryValue e = v \<and> entryFlag e = LOWERBOUND \<and>
      specFlag v NegInf PosInf = EXACT" for Z h
  proof -
    have fresh: "Map.empty h = None" and d: "0 < (1::nat)" and be: "PosInf \<noteq> NaN" by simp_all
    from stored_flag_by_node_kind [where h = h and tt = Map.empty and Z = Z and alpha = NegInf
        and isMax = False and ai = Black, OF wf b tt fresh d go hv be]
    obtain v tt' where
      r: "alphaBetaSearch Z loneGame 1 NegInf PosInf False Black h Map.empty = Inr (v, tt')"
      and f: "isFin v"
      and e: "tt' h = Some \<lparr>entryValue = v, entryDepth = 1,
                entryFlag = (if js_le v NegInf then UPPERBOUND else LOWERBOUND)\<rparr>"
      by auto
    from f obtain q where q: "v = Fin q" by (auto elim: isFinE)
    have n: "\<not> js_le v NegInf" and s: "specFlag v NegInf PosInf = EXACT"
      by (simp_all add: q js_le_def js_ge_def specFlag_def)
    from r e n s show ?thesis by simp
  qed
  with wf b tt go hv show ?thesis by blast
qed

section \<open>The simulation leaves the objects of its caller alone\<close>

lemma unchanged_refl: "unchanged h h"
  by (simp add: unchanged_def)

lemma unchanged_trans: "unchanged h1 h2 \<Longrightarrow> unchanged h2 h3 \<Longrightarrow> unchanged h1 h3"
  unfolding unchanged_def by (meson prefix_order.trans)

lemma unchanged_lengths:
  assumes "unchanged h h'"
  shows "length (pieceObjs h) \<le> length (pieceObjs h')"
    and "length (rowObjs h) \<le> length (rowObjs h')"
    and "length (boardObjs h) \<le> length (boardObjs h')"
  using assms by (simp_all add: unchanged_def prefix_length_le)

lemma prefix_nth: "prefix xs ys \<Longrightarrow> i < length xs \<Longrightarrow> ys ! i = xs ! i"
  by (auto simp: prefix_def nth_append)

lemma prefix_update: "prefix xs ys \<Longrightarrow> length xs \<le> i \<Longrightarrow> prefix xs (ys[i := v])"
  by (auto simp: prefix_def list_update_append)

lemma allocPiece_unchanged: "allocPiece p h = (a, h') \<Longrightarrow>
    unchanged h h' \<and> a = length (pieceObjs h) \<and> pieceObjs h' = pieceObjs h @ [p] \<and>
    rowObjs h' = rowObjs h \<and> boardObjs h' = boardObjs h"
  by (auto simp: allocPiece_def unchanged_def)

lemma allocRow_unchanged: "allocRow cells h = (ra, h') \<Longrightarrow>
    unchanged h h' \<and> ra = length (rowObjs h) \<and> rowObjs h' = rowObjs h @ [cells] \<and>
    pieceObjs h' = pieceObjs h \<and> boardObjs h' = boardObjs h"
  by (auto simp: allocRow_def unchanged_def)

lemma allocBoard_unchanged: "allocBoard rws h = (ba, h') \<Longrightarrow>
    unchanged h h' \<and> ba = length (boardObjs h) \<and> boardObjs h' = boardObjs h @ [rws] \<and>
    pieceObjs h' = pieceObjs h \<and> rowObjs h' = rowObjs h"
  by (auto simp: allocBoard_def unchanged_def)

lemma copyCells_unchanged:
  "copyCells ps h = (cells, h') \<Longrightarrow>
   unchanged h h' \<and> rowObjs h' = rowObjs h \<and> boardObjs h' = boardObjs h"
proof (induction ps h arbitrary: cells h' rule: copyCells.induct)
  case (1 h)
  then show ?case by (simp add: unchanged_refl)
next
  case (2 ps h)
  then show ?case by (auto split: prod.splits)
next
  case (3 a ps h)
  obtain a' h1 where al: "allocPiece (pieceObjs h ! a) h = (a', h1)" by force
  obtain cs h2 where cp: "copyCells ps h1 = (cs, h2)" by force
  from "3.prems" al cp have e: "h' = h2" by simp
  from "3.IH" [OF al [symmetric] cp] allocPiece_unchanged [OF al] show ?case
    unfolding e by (auto intro: unchanged_trans)
qed

lemma copyRows_unchanged:
  "copyRows ras h = (rws, h') \<Longrightarrow>
   unchanged h h' \<and> boardObjs h' = boardObjs h \<and>
   list_all (\<lambda>ra. length (rowObjs h) \<le> ra \<and> ra < length (rowObjs h')) rws"
proof (induction ras arbitrary: h rws h')
  case Nil
  then show ?case by (simp add: unchanged_refl)
next
  case (Cons ra ras)
  obtain cells h1 where cc: "copyCells (rowObjs h ! ra) h = (cells, h1)" by force
  obtain ra' h2 where ar: "allocRow cells h1 = (ra', h2)" by force
  obtain rs h3 where cr: "copyRows ras h2 = (rs, h3)" by force
  from Cons.prems cc ar cr have e: "rws = ra' # rs" "h' = h3" by simp_all
  note c = copyCells_unchanged [OF cc] and a = allocRow_unchanged [OF ar] and r = Cons.IH [OF cr]
  have u: "unchanged h h3" using c a r by (blast intro: unchanged_trans)
  have l2: "length (rowObjs h2) = Suc (length (rowObjs h))" using c a by simp
  have l3: "length (rowObjs h2) \<le> length (rowObjs h3)" using r by (simp add: unchanged_lengths)
  have "list_all (\<lambda>ra. length (rowObjs h) \<le> ra \<and> ra < length (rowObjs h3)) rs"
    using r l2 by (auto simp: list_all_iff)
  moreover have "length (rowObjs h) \<le> ra' \<and> ra' < length (rowObjs h3)"
    using a c l2 l3 by simp
  ultimately show ?case unfolding e using u r a c by simp
qed

lemma deepCopy_fresh:
  assumes "deepCopy sourceBoard h = (tb, h')"
  shows "freshBoard h tb h'"
proof -
  obtain rws h1 where cr: "copyRows (boardObjs h ! sourceBoard) h = (rws, h1)" by force
  with assms have ab: "allocBoard rws h1 = (tb, h')" by (simp add: deepCopy_def)
  note r = copyRows_unchanged [OF cr] and a = allocBoard_unchanged [OF ab]
  have "unchanged h h'" using r a by (blast intro: unchanged_trans)
  moreover have "boardObjs h' ! tb = rws" using a by simp
  ultimately show ?thesis using r a by (simp add: freshBoard_def)
qed

lemma freshBoard_allocPiece:
  "freshBoard h0 tb h \<Longrightarrow> allocPiece p h = (a, h') \<Longrightarrow>
   freshBoard h0 tb h' \<and> length (pieceObjs h0) \<le> a"
  by (auto simp: freshBoard_def allocPiece_def unchanged_def prefix_length_le
      intro: prefix_order.trans)

lemma freshBoard_writeCell:
  assumes "freshBoard h0 tb h"
  shows "freshBoard h0 tb (writeCell tb r c v h)"
proof (cases "r < length (boardObjs h ! tb)")
  case True
  with assms have "length (rowObjs h0) \<le> boardObjs h ! tb ! r"
    by (simp add: freshBoard_def list_all_length)
  with assms True show ?thesis
    by (simp add: freshBoard_def writeCell_def unchanged_def prefix_update Let_def)
next
  case False
  with assms show ?thesis by (simp add: writeCell_def)
qed

lemma freshBoard_clearSquaresH:
  "freshBoard h0 tb h \<Longrightarrow> freshBoard h0 tb (clearSquaresH tb ks h)"
  unfolding clearSquaresH_def
  by (induction ks arbitrary: h) (auto simp: freshBoard_writeCell)

lemma freshBoard_setPromoted:
  "freshBoard h0 tb h \<Longrightarrow> length (pieceObjs h0) \<le> a \<Longrightarrow> freshBoard h0 tb (setPromoted a h)"
  by (simp add: freshBoard_def setPromoted_def unchanged_def prefix_update)

lemma freshBoard_promotionStepH:
  assumes "freshBoard h0 tb h" and "length (pieceObjs h0) \<le> movedPiece"
    and "promotionStepH fr fc tr tc movedPiece tb sourceBoard h = (res, h')"
  shows "freshBoard h0 tb h'"
  using assms
  by (auto simp: promotionStepH_def Let_def freshBoard_setPromoted freshBoard_clearSquaresH
      split: if_splits sum.splits option.splits)

lemma freshBoard_combinationStepH:
  assumes "freshBoard h0 tb h"
    and "combinationStepH tr tc col tb scoreGain h = (res, h')"
  shows "freshBoard h0 tb h'"
  using assms
  by (auto simp: combinationStepH_def Let_def freshBoard_clearSquaresH
      split: if_splits prod.splits)

lemma simulateFullMoveH_unchanged:
  assumes "simulateFullMoveH fr fc tr tc col sourceBoard h = (res, h')"
  shows "unchanged h h'"
proof -
  obtain tb h1 where dc: "deepCopy sourceBoard h = (tb, h1)" by force
  note f1 = deepCopy_fresh [OF dc]
  show ?thesis
  proof (cases "cellRef h1 tb fr fc")
    case None
    with assms dc f1 show ?thesis by (simp add: simulateFullMoveH_def freshBoard_def)
  next
    case (Some pieceToMove)
    show ?thesis
    proof (cases "color (pieceObjs h1 ! pieceToMove) \<noteq> col")
      case True
      with assms dc f1 Some show ?thesis by (simp add: simulateFullMoveH_def freshBoard_def)
    next
      case False
      obtain movedPiece h2 where al: "allocPiece (pieceObjs h1 ! pieceToMove) h1 = (movedPiece, h2)"
        by force
      from freshBoard_allocPiece [OF f1 al] have f2: "freshBoard h tb h2"
        and mp: "length (pieceObjs h) \<le> movedPiece" by simp_all
      show ?thesis
      proof (cases "\<not> tr < length (boardObjs h2 ! tb) \<or> cellRef h2 tb tr tc \<noteq> None")
        case True
        with assms dc Some False al have "h' = h2"
          by (auto simp: simulateFullMoveH_def split: if_splits)
        with f2 show ?thesis by (simp add: freshBoard_def)
      next
        case ok: False
        define h4 where "h4 = writeCell tb fr fc None (writeCell tb tr tc (Some movedPiece) h2)"
        have f4: "freshBoard h tb h4" unfolding h4_def
          by (intro freshBoard_writeCell f2)
        obtain pres h5 where ps: "promotionStepH fr fc tr tc movedPiece tb sourceBoard h4 = (pres, h5)"
          by force
        from freshBoard_promotionStepH [OF f4 mp ps] have f5: "freshBoard h tb h5" .
        show ?thesis
        proof (cases pres)
          case (Inl e)
          with assms dc Some False al ok ps have "h' = h5"
            by (simp add: simulateFullMoveH_def Let_def h4_def)
          with f5 show ?thesis by (simp add: freshBoard_def)
        next
          case (Inr x)
          obtain scoreGain leads where x: "x = (scoreGain, leads)" by force
          obtain sg h6 where cs: "combinationStepH tr tc col tb scoreGain h5 = (sg, h6)" by force
          from freshBoard_combinationStepH [OF f5 cs] have f6: "freshBoard h tb h6" .
          from assms dc Some False al ok ps Inr x cs have "h' = h6"
            by (simp add: simulateFullMoveH_def Let_def h4_def)
          with f6 show ?thesis by (simp add: freshBoard_def)
        qed
      qed
    qed
  qed
qed

lemma unchanged_readBoard:
  assumes u: "unchanged h h'" and v: "validBoard h ba"
  shows "readBoard h' ba = readBoard h ba \<and> boardObjs h' ! ba = boardObjs h ! ba \<and>
         validBoard h' ba"
proof -
  from u have pp: "prefix (pieceObjs h) (pieceObjs h')" and pr: "prefix (rowObjs h) (rowObjs h')"
    and pb: "prefix (boardObjs h) (boardObjs h')" by (simp_all add: unchanged_def)
  from v have ba: "ba < length (boardObjs h)" by (simp add: validBoard_def)
  from prefix_nth [OF pb ba] have b: "boardObjs h' ! ba = boardObjs h ! ba" .
  have row: "readRow h' ra = readRow h ra \<and> rowObjs h' ! ra = rowObjs h ! ra"
    if "ra \<in> set (boardObjs h ! ba)" for ra
  proof -
    from v that have ra: "ra < length (rowObjs h)"
      and cells: "\<forall>x \<in> set (rowObjs h ! ra). case x of None \<Rightarrow> True | Some a \<Rightarrow> a < length (pieceObjs h)"
      by (auto simp: validBoard_def list_all_iff)
    from prefix_nth [OF pr ra] have r: "rowObjs h' ! ra = rowObjs h ! ra" .
    have "map_option (\<lambda>a. pieceObjs h' ! a) x = map_option (\<lambda>a. pieceObjs h ! a) x"
      if "x \<in> set (rowObjs h ! ra)" for x
      using cells that prefix_nth [OF pp] by (cases x) auto
    then show ?thesis by (simp add: readRow_def r)
  qed
  then have "readBoard h' ba = readBoard h ba" by (simp add: readBoard_def b)
  moreover have "validBoard h' ba"
    using v row unchanged_lengths [OF u]
    by (fastforce simp: validBoard_def b list_all_iff split: option.splits)
  ultimately show ?thesis using b by simp
qed

subsection \<open>The simulation on the store computes the simulation on values\<close>

text \<open>
  Reading a board out of the store commutes with the writes of the simulation, because
  the board written to is a deep copy: its rows are different objects, and the moved
  piece is an object that only the destination square refers to.
\<close>

lemma length_readBoard [simp]: "length (readBoard h tb) = length (boardObjs h ! tb)"
  by (simp add: readBoard_def)

lemma length_readBoard_row:
  "r < length (boardObjs h ! tb) \<Longrightarrow>
   length (readBoard h tb ! r) = length (rowObjs h ! (boardObjs h ! tb ! r))"
  by (simp add: readBoard_def readRow_def)

lemma cell_readBoard:
  "cell (readBoard h tb) r c = map_option (\<lambda>a. pieceObjs h ! a) (cellRef h tb r c)"
  by (auto simp: cell_def cellRef_def readBoard_def readRow_def Let_def)

lemma validBoard_alt:
  "validBoard h ba =
     (ba < length (boardObjs h) \<and>
      (\<forall>ra \<in> set (boardObjs h ! ba). ra < length (rowObjs h) \<and>
         (\<forall>a. Some a \<in> set (rowObjs h ! ra) \<longrightarrow> a < length (pieceObjs h))))"
  unfolding validBoard_def list_all_iff
  by (auto split: option.splits)

lemma board_eqI:
  assumes "length b = length b'"
    and "\<And>r. r < length b \<Longrightarrow> length (b ! r) = length (b' ! r)"
    and "\<And>r c. cell b r c = cell b' r c"
  shows "b = b'"
proof (rule nth_equalityI [OF assms(1)])
  fix r assume r: "r < length b"
  show "b ! r = b' ! r"
  proof (rule nth_equalityI [OF assms(2) [OF r]])
    fix c assume c: "c < length (b ! r)"
    from assms(3) [of r c] r c assms(1) assms(2) [OF r] show "b ! r ! c = b' ! r ! c"
      by (simp add: cell_def)
  qed
qed

lemma map_js_set:
  "map (map_option f) (js_set xs c v) = js_set (map (map_option f) xs) c (map_option f v)"
  by (simp add: js_set_def map_update)

lemma ownBoard_rows:
  assumes "ownBoard h tb" and "r < length (boardObjs h ! tb)"
  shows "boardObjs h ! tb ! r < length (rowObjs h)"
  using assms by (simp add: ownBoard_def validBoard_def list_all_length)

lemma ownBoard_refs:
  assumes "ownBoard h tb" and "i < length (boardObjs h ! tb)"
    and "Some a \<in> set (rowObjs h ! (boardObjs h ! tb ! i))"
  shows "a < length (pieceObjs h)"
proof -
  from assms(2) have "boardObjs h ! tb ! i \<in> set (boardObjs h ! tb)" by simp
  with assms(1,3) show ?thesis unfolding ownBoard_def validBoard_alt by blast
qed

lemma ownBoard_index:
  assumes "ownBoard h tb" and "i < length (boardObjs h ! tb)" and "r < length (boardObjs h ! tb)"
  shows "(boardObjs h ! tb ! i = boardObjs h ! tb ! r) = (i = r)"
  using assms by (simp add: ownBoard_def nth_eq_iff_index_eq)

lemma writeCell_fields [simp]:
  "boardObjs (writeCell tb r c v h) = boardObjs h"
  "pieceObjs (writeCell tb r c v h) = pieceObjs h"
  "length (rowObjs (writeCell tb r c v h)) = length (rowObjs h)"
  by (simp_all add: writeCell_def Let_def)

lemma writeCell_row:
  assumes o: "ownBoard h tb" and r: "r < length (boardObjs h ! tb)"
    and i: "i < length (boardObjs h ! tb)"
  shows "rowObjs (writeCell tb r c v h) ! (boardObjs h ! tb ! i) =
         (if i = r then js_set (rowObjs h ! (boardObjs h ! tb ! r)) c v
          else rowObjs h ! (boardObjs h ! tb ! i))"
  using ownBoard_rows [OF o r] ownBoard_index [OF o i r] ownBoard_index [OF o r i] r
  by (simp add: writeCell_def Let_def nth_list_update)

lemma readBoard_writeCell:
  assumes o: "ownBoard h tb"
  shows "readBoard (writeCell tb r c v h) tb =
         setCell (readBoard h tb) r c (map_option (\<lambda>a. pieceObjs h ! a) v)"
proof (cases "r < length (boardObjs h ! tb)")
  case False
  then have "length (readBoard h tb) \<le> r" by simp
  with False show ?thesis by (simp add: writeCell_def setCell_def list_update_beyond)
next
  case True
  show ?thesis
  proof (rule nth_equalityI)
    show "length (readBoard (writeCell tb r c v h) tb) =
          length (setCell (readBoard h tb) r c (map_option (\<lambda>a. pieceObjs h ! a) v))"
      by (simp add: setCell_def)
  next
    fix i assume "i < length (readBoard (writeCell tb r c v h) tb)"
    then have i: "i < length (boardObjs h ! tb)" by simp
    have "readBoard (writeCell tb r c v h) tb ! i =
          map (map_option (\<lambda>a. pieceObjs h ! a))
            (rowObjs (writeCell tb r c v h) ! (boardObjs h ! tb ! i))"
      using i by (simp add: readBoard_def readRow_def)
    also have "\<dots> = (if i = r
        then js_set (readBoard h tb ! r) c (map_option (\<lambda>a. pieceObjs h ! a) v)
        else readBoard h tb ! i)"
      using i True by (simp add: writeCell_row [OF o True i] map_js_set readBoard_def readRow_def)
    also have "\<dots> = setCell (readBoard h tb) r c (map_option (\<lambda>a. pieceObjs h ! a) v) ! i"
      using i True by (simp add: setCell_def nth_list_update)
    finally show "readBoard (writeCell tb r c v h) tb ! i =
        setCell (readBoard h tb) r c (map_option (\<lambda>a. pieceObjs h ! a) v) ! i" .
  qed
qed

lemma cellRef_writeCell:
  assumes o: "ownBoard h tb" and r: "r < length (boardObjs h ! tb)"
  shows "cellRef (writeCell tb r c v h) tb r' c' =
         (if r' = r \<and> c' = c then v else cellRef h tb r' c')"
proof (cases "r' < length (boardObjs h ! tb)")
  case False
  with r show ?thesis by (auto simp: cellRef_def Let_def)
next
  case True
  show ?thesis
  proof (cases "r' = r")
    case e: True
    have "cellRef (writeCell tb r c v h) tb r c' =
        (if c' < length (js_set (rowObjs h ! (boardObjs h ! tb ! r)) c v)
         then js_set (rowObjs h ! (boardObjs h ! tb ! r)) c v ! c' else None)"
      using r by (simp add: cellRef_def Let_def writeCell_row [OF o r r])
    also have "\<dots> = (if c' = c then v
        else if c' < length (rowObjs h ! (boardObjs h ! tb ! r))
             then rowObjs h ! (boardObjs h ! tb ! r) ! c' else None)"
      by (rule nth_js_set)
    also have "\<dots> = (if c' = c then v else cellRef h tb r c')"
      using r by (simp add: cellRef_def Let_def)
    finally show ?thesis using e by simp
  next
    case False
    with True show ?thesis by (simp add: cellRef_def Let_def writeCell_row [OF o r True])
  qed
qed

lemma in_set_js_set: "x \<in> set (js_set xs c v) \<Longrightarrow> x \<in> set xs \<or> x = v \<or> x = None"
  by (auto simp: js_set_def dest: set_update_subset_insert [THEN subsetD] split: if_splits)

lemma ownBoard_writeCell:
  assumes o: "ownBoard h tb"
    and v: "\<And>a. v = Some a \<Longrightarrow> a < length (pieceObjs h)"
  shows "ownBoard (writeCell tb r c v h) tb"
proof (cases "r < length (boardObjs h ! tb)")
  case False
  with o show ?thesis by (simp add: writeCell_def)
next
  case True
  have "a < length (pieceObjs h)"
    if ra: "ra \<in> set (boardObjs h ! tb)" and a: "Some a \<in> set (rowObjs (writeCell tb r c v h) ! ra)"
    for ra a
  proof -
    from ra obtain i where i: "i < length (boardObjs h ! tb)" and e: "ra = boardObjs h ! tb ! i"
      by (auto simp: in_set_conv_nth)
    note old = ownBoard_refs [OF o i] and oldr = ownBoard_refs [OF o True]
    from a have "Some a \<in> set (if i = r then js_set (rowObjs h ! (boardObjs h ! tb ! r)) c v
          else rowObjs h ! (boardObjs h ! tb ! i))"
      unfolding e writeCell_row [OF o True i] .
    then show ?thesis using old oldr v by (auto dest!: in_set_js_set split: if_splits)
  qed
  with o show ?thesis
    by (simp add: ownBoard_def validBoard_alt)
qed

lemma setPromoted_fields [simp]:
  "boardObjs (setPromoted a h) = boardObjs h"
  "rowObjs (setPromoted a h) = rowObjs h"
  "length (pieceObjs (setPromoted a h)) = length (pieceObjs h)"
  by (simp_all add: setPromoted_def)

lemma cellRef_setPromoted [simp]: "cellRef (setPromoted a h) tb r c = cellRef h tb r c"
  by (simp add: cellRef_def Let_def)

lemma ownBoard_setPromoted: "ownBoard h tb \<Longrightarrow> ownBoard (setPromoted a h) tb"
  by (simp add: ownBoard_def validBoard_alt)

lemma cellRef_valid:
  assumes "ownBoard h tb" and "cellRef h tb r c = Some a"
  shows "a < length (pieceObjs h) \<and> r < length (boardObjs h ! tb) \<and>
         c < length (rowObjs h ! (boardObjs h ! tb ! r))"
proof -
  from assms(2) have r: "r < length (boardObjs h ! tb)"
    and c: "c < length (rowObjs h ! (boardObjs h ! tb ! r))"
    and e: "rowObjs h ! (boardObjs h ! tb ! r) ! c = Some a"
    by (auto simp: cellRef_def Let_def split: if_splits)
  from c e have "Some a \<in> set (rowObjs h ! (boardObjs h ! tb ! r))"
    by (metis nth_mem)
  from ownBoard_refs [OF assms(1) r this] r c show ?thesis by simp
qed

lemma readBoard_setPromoted:
  assumes o: "ownBoard h tb" and at: "cellRef h tb tr tc = Some a"
    and sole: "\<And>r c. cellRef h tb r c = Some a \<Longrightarrow> r = tr \<and> c = tc"
  shows "readBoard (setPromoted a h) tb =
         setCell (readBoard h tb) tr tc (Some ((pieceObjs h ! a)\<lparr>promoted := True\<rparr>))"
proof (rule board_eqI)
  from cellRef_valid [OF o at] have a: "a < length (pieceObjs h)"
    and tr: "tr < length (boardObjs h ! tb)"
    and tc: "tc < length (rowObjs h ! (boardObjs h ! tb ! tr))" by simp_all
  show "length (readBoard (setPromoted a h) tb) =
        length (setCell (readBoard h tb) tr tc (Some ((pieceObjs h ! a)\<lparr>promoted := True\<rparr>)))"
    by simp
  show "length (readBoard (setPromoted a h) tb ! r) =
        length (setCell (readBoard h tb) tr tc (Some ((pieceObjs h ! a)\<lparr>promoted := True\<rparr>)) ! r)"
    if "r < length (readBoard (setPromoted a h) tb)" for r
  proof -
    from that have r: "r < length (boardObjs h ! tb)" by simp
    have "length (readBoard (setPromoted a h) tb ! r) =
          length (rowObjs h ! (boardObjs h ! tb ! r))"
      using length_readBoard_row [of r "setPromoted a h" tb] r by simp
    moreover have "length (setCell (readBoard h tb) tr tc
                     (Some ((pieceObjs h ! a)\<lparr>promoted := True\<rparr>)) ! r) =
          length (rowObjs h ! (boardObjs h ! tb ! r))"
      using r tr tc length_readBoard_row [of r h tb] length_readBoard_row [of tr h tb]
      by (auto simp: setCell_def nth_list_update length_js_set max_def)
    ultimately show ?thesis by simp
  qed
  show "cell (readBoard (setPromoted a h) tb) r c =
        cell (setCell (readBoard h tb) tr tc (Some ((pieceObjs h ! a)\<lparr>promoted := True\<rparr>))) r c"
    for r c
  proof -
    have "cell (readBoard (setPromoted a h) tb) r c =
          map_option (\<lambda>x. pieceObjs (setPromoted a h) ! x) (cellRef h tb r c)"
      by (simp add: cell_readBoard)
    also have "\<dots> = (if r = tr \<and> c = tc then Some ((pieceObjs h ! a)\<lparr>promoted := True\<rparr>)
                      else map_option (\<lambda>x. pieceObjs h ! x) (cellRef h tb r c))"
    proof (cases "cellRef h tb r c")
      case None
      with at show ?thesis by auto
    next
      case (Some x)
      show ?thesis
      proof (cases "x = a")
        case True
        with Some sole [of r c] a show ?thesis by (simp add: setPromoted_def)
      next
        case False
        with Some at have "\<not> (r = tr \<and> c = tc)" by auto
        with Some False show ?thesis by (auto simp: setPromoted_def)
      qed
    qed
    also have "\<dots> = cell (setCell (readBoard h tb) tr tc
                        (Some ((pieceObjs h ! a)\<lparr>promoted := True\<rparr>))) r c"
      using tr by (simp add: cell_setCell cell_readBoard)
    finally show ?thesis .
  qed
qed

lemma ownBoard_writeCell_None: "ownBoard h tb \<Longrightarrow> ownBoard (writeCell tb r c None h) tb"
  by (rule ownBoard_writeCell) simp_all

lemma ownBoard_clearSquaresH: "ownBoard h tb \<Longrightarrow> ownBoard (clearSquaresH tb ks h) tb"
  unfolding clearSquaresH_def
  by (induction ks arbitrary: h) (auto simp: ownBoard_writeCell_None)

lemma readBoard_clearSquaresH:
  "ownBoard h tb \<Longrightarrow> readBoard (clearSquaresH tb ks h) tb = clearSquares ks (readBoard h tb)"
  unfolding clearSquaresH_def clearSquares_def
proof (induction ks arbitrary: h)
  case Nil
  then show ?case by simp
next
  case (Cons k ks)
  obtain r c where k: "k = (r, c)" by force
  have o: "ownBoard (writeCell tb r c None h) tb"
    by (rule ownBoard_writeCell [OF Cons.prems]) simp
  from Cons.IH [OF o] show ?case
    by (simp add: k readBoard_writeCell [OF Cons.prems])
qed

lemma pieceObjs_clearSquaresH [simp]: "pieceObjs (clearSquaresH tb ks h) = pieceObjs h"
  unfolding clearSquaresH_def by (induction ks arbitrary: h) auto

lemma unchanged_readRow:
  assumes u: "unchanged h h'" and ra: "ra < length (rowObjs h)"
    and refs: "\<And>a. Some a \<in> set (rowObjs h ! ra) \<Longrightarrow> a < length (pieceObjs h)"
  shows "readRow h' ra = readRow h ra" and "rowObjs h' ! ra = rowObjs h ! ra"
proof -
  from u have pp: "prefix (pieceObjs h) (pieceObjs h')" and pr: "prefix (rowObjs h) (rowObjs h')"
    by (simp_all add: unchanged_def)
  from prefix_nth [OF pr ra] show r: "rowObjs h' ! ra = rowObjs h ! ra" .
  have "map_option (\<lambda>a. pieceObjs h' ! a) x = map_option (\<lambda>a. pieceObjs h ! a) x"
    if "x \<in> set (rowObjs h ! ra)" for x
    using refs that prefix_nth [OF pp] by (cases x) auto
  then show "readRow h' ra = readRow h ra" by (simp add: readRow_def r)
qed

lemma copyCells_read:
  "(\<And>a. Some a \<in> set ps \<Longrightarrow> a < length (pieceObjs h)) \<Longrightarrow> copyCells ps h = (cells, h') \<Longrightarrow>
   map (map_option (\<lambda>a. pieceObjs h' ! a)) cells = map (map_option (\<lambda>a. pieceObjs h ! a)) ps \<and>
   (\<forall>a. Some a \<in> set cells \<longrightarrow> a < length (pieceObjs h'))"
proof (induction ps h arbitrary: cells h' rule: copyCells.induct)
  case (1 h)
  then show ?case by simp
next
  case (2 ps h)
  obtain cs h2 where cp: "copyCells ps h = (cs, h2)" by force
  with "2.prems"(2) have e: "cells = None # cs" "h' = h2" by simp_all
  from "2.IH" [OF _ cp] "2.prems"(1) show ?case unfolding e by simp
next
  case (3 a ps h)
  obtain a' h1 where al: "allocPiece (pieceObjs h ! a) h = (a', h1)" by force
  obtain cs h2 where cp: "copyCells ps h1 = (cs, h2)" by force
  from "3.prems"(2) al cp have e: "cells = Some a' # cs" "h' = h2" by simp_all
  note A = allocPiece_unchanged [OF al]
  from A have a': "a' = length (pieceObjs h)" and p1: "pieceObjs h1 = pieceObjs h @ [pieceObjs h ! a]"
    by simp_all
  have v1: "\<And>x. Some x \<in> set ps \<Longrightarrow> x < length (pieceObjs h1)"
    using "3.prems"(1) p1 by fastforce
  from "3.IH" [OF al [symmetric] v1 cp]
  have m: "map (map_option (\<lambda>a. pieceObjs h2 ! a)) cs = map (map_option (\<lambda>a. pieceObjs h1 ! a)) ps"
    and v2: "\<forall>x. Some x \<in> set cs \<longrightarrow> x < length (pieceObjs h2)" by simp_all
  have "map (map_option (\<lambda>a. pieceObjs h1 ! a)) ps = map (map_option (\<lambda>a. pieceObjs h ! a)) ps"
  proof (rule map_cong [OF refl])
    fix x assume "x \<in> set ps"
    with "3.prems"(1) show "map_option (\<lambda>a. pieceObjs h1 ! a) x = map_option (\<lambda>a. pieceObjs h ! a) x"
      by (cases x) (auto simp: p1 nth_append)
  qed
  with m have m': "map (map_option (\<lambda>a. pieceObjs h2 ! a)) cs =
      map (map_option (\<lambda>a. pieceObjs h ! a)) ps" by simp
  from copyCells_unchanged [OF cp] have pre: "prefix (pieceObjs h1) (pieceObjs h2)"
    by (simp add: unchanged_def)
  have a1: "a' < length (pieceObjs h1)" by (simp add: a' p1)
  from prefix_nth [OF pre a1] have "pieceObjs h2 ! a' = pieceObjs h ! a"
    by (simp add: a' p1)
  moreover from a1 prefix_length_le [OF pre] have "a' < length (pieceObjs h2)" by simp
  ultimately show ?case unfolding e using m' v2 by auto
qed

lemma copyRows_read:
  "(\<And>ra. ra \<in> set ras \<Longrightarrow> ra < length (rowObjs h) \<and>
        (\<forall>a. Some a \<in> set (rowObjs h ! ra) \<longrightarrow> a < length (pieceObjs h))) \<Longrightarrow>
   copyRows ras h = (rws, h') \<Longrightarrow>
   map (readRow h') rws = map (readRow h) ras \<and> distinct rws \<and>
   (\<forall>ra \<in> set rws. ra < length (rowObjs h') \<and>
        (\<forall>a. Some a \<in> set (rowObjs h' ! ra) \<longrightarrow> a < length (pieceObjs h')))"
proof (induction ras arbitrary: h rws h')
  case Nil
  then show ?case by simp
next
  case (Cons ra ras)
  obtain cells h1 where cc: "copyCells (rowObjs h ! ra) h = (cells, h1)" by force
  obtain ra' h2 where ar: "allocRow cells h1 = (ra', h2)" by force
  obtain rs h3 where cr: "copyRows ras h2 = (rs, h3)" by force
  from Cons.prems(2) cc ar cr have e: "rws = ra' # rs" "h' = h3" by simp_all
  note C = copyCells_unchanged [OF cc] and A = allocRow_unchanged [OF ar]
    and R = copyRows_unchanged [OF cr]
  have u2: "unchanged h h2" using C A by (blast intro: unchanged_trans)
  have ra': "ra' = length (rowObjs h)" and r2: "rowObjs h2 = rowObjs h @ [cells]"
    and p2: "pieceObjs h2 = pieceObjs h1" using C A by simp_all
  from Cons.prems(1) [of ra] have rav: "ra < length (rowObjs h)"
    and raf: "\<And>a. Some a \<in> set (rowObjs h ! ra) \<Longrightarrow> a < length (pieceObjs h)" by simp_all
  from copyCells_read [OF raf cc]
  have cm: "map (map_option (\<lambda>a. pieceObjs h1 ! a)) cells = readRow h ra"
    and cv: "\<And>a. Some a \<in> set cells \<Longrightarrow> a < length (pieceObjs h1)"
    by (simp_all add: readRow_def)
  have v2: "ra'' < length (rowObjs h2) \<and>
        (\<forall>a. Some a \<in> set (rowObjs h2 ! ra'') \<longrightarrow> a < length (pieceObjs h2))"
    if "ra'' \<in> set ras" for ra''
  proof -
    from Cons.prems(1) [of ra''] that have a: "ra'' < length (rowObjs h)"
      and b: "\<And>a. Some a \<in> set (rowObjs h ! ra'') \<Longrightarrow> a < length (pieceObjs h)" by simp_all
    from a have "rowObjs h2 ! ra'' = rowObjs h ! ra''" by (simp add: r2 nth_append)
    with a b unchanged_lengths(1) [OF u2] show ?thesis by (fastforce simp: r2)
  qed
  from Cons.IH [OF v2 cr]
  have m: "map (readRow h3) rs = map (readRow h2) ras" and d: "distinct rs"
    and v3: "\<forall>ra \<in> set rs. ra < length (rowObjs h3) \<and>
        (\<forall>a. Some a \<in> set (rowObjs h3 ! ra) \<longrightarrow> a < length (pieceObjs h3))" by simp_all
  have "map (readRow h2) ras = map (readRow h) ras"
  proof (rule map_cong [OF refl])
    fix x assume "x \<in> set ras"
    with Cons.prems(1) [of x] show "readRow h2 x = readRow h x"
      by (intro unchanged_readRow(1) [OF u2]) simp_all
  qed
  with m have m': "map (readRow h3) rs = map (readRow h) ras" by simp
  have fresh: "ra' \<notin> set rs" using R by (auto simp: list_all_iff r2 ra')
  have ra2: "ra' < length (rowObjs h2)" by (simp add: r2 ra')
  have c2: "rowObjs h2 ! ra' = cells" by (simp add: r2 ra')
  have cv2: "\<And>a. Some a \<in> set (rowObjs h2 ! ra') \<Longrightarrow> a < length (pieceObjs h2)"
    using cv by (simp add: c2 p2)
  from R have u3: "unchanged h2 h3" by simp
  have r3: "readRow h3 ra' = readRow h ra"
    using unchanged_readRow(1) [OF u3 ra2 cv2] cm by (simp add: readRow_def c2 p2)
  have c3: "rowObjs h3 ! ra' = cells" using unchanged_readRow(2) [OF u3 ra2 cv2] c2 by simp
  have v: "ra' < length (rowObjs h3) \<and>
        (\<forall>a. Some a \<in> set (rowObjs h3 ! ra') \<longrightarrow> a < length (pieceObjs h3))"
    using ra2 unchanged_lengths [OF u3] cv by (fastforce simp: c3 p2)
  show ?case unfolding e using m' d fresh r3 v v3 by simp
qed

lemma deepCopy_read:
  assumes v: "validBoard h sourceBoard" and dc: "deepCopy sourceBoard h = (tb, h')"
  shows "readBoard h' tb = readBoard h sourceBoard" and "ownBoard h' tb"
    and "length (boardObjs h' ! tb) = length (boardObjs h ! sourceBoard)"
proof -
  obtain rws h1 where cr: "copyRows (boardObjs h ! sourceBoard) h = (rws, h1)" by force
  with dc have ab: "allocBoard rws h1 = (tb, h')" by (simp add: deepCopy_def)
  note A = allocBoard_unchanged [OF ab]
  from A have tb: "tb = length (boardObjs h1)" and b': "boardObjs h' = boardObjs h1 @ [rws]"
    and p': "pieceObjs h' = pieceObjs h1" and r': "rowObjs h' = rowObjs h1" by simp_all
  have rows: "boardObjs h' ! tb = rws" by (simp add: tb b')
  have valid: "ra < length (rowObjs h) \<and>
        (\<forall>a. Some a \<in> set (rowObjs h ! ra) \<longrightarrow> a < length (pieceObjs h))"
    if "ra \<in> set (boardObjs h ! sourceBoard)" for ra
    using v that unfolding validBoard_alt by blast
  from copyRows_read [OF valid cr]
  have m: "map (readRow h1) rws = map (readRow h) (boardObjs h ! sourceBoard)"
    and d: "distinct rws"
    and v1: "\<forall>ra \<in> set rws. ra < length (rowObjs h1) \<and>
        (\<forall>a. Some a \<in> set (rowObjs h1 ! ra) \<longrightarrow> a < length (pieceObjs h1))" by simp_all
  have "readRow h' = readRow h1" by (simp add: readRow_def fun_eq_iff p' r')
  with m show "readBoard h' tb = readBoard h sourceBoard" by (simp add: readBoard_def rows)
  from d v1 show "ownBoard h' tb"
    unfolding ownBoard_def validBoard_alt rows p' r' by (simp add: tb b')
  from m show "length (boardObjs h' ! tb) = length (boardObjs h ! sourceBoard)"
    unfolding rows by (metis length_map)
qed

lemma allocPiece_read:
  assumes o: "ownBoard h tb" and al: "allocPiece p h = (a, h')"
  shows "ownBoard h' tb" and "readBoard h' tb = readBoard h tb"
    and "cellRef h' tb r c = cellRef h tb r c"
proof -
  note A = allocPiece_unchanged [OF al]
  from A have u: "unchanged h h'" by simp
  from o have v: "validBoard h tb" by (simp add: ownBoard_def)
  from unchanged_readBoard [OF u v] o A show "ownBoard h' tb"
    by (simp add: ownBoard_def)
  from unchanged_readBoard [OF u v] show "readBoard h' tb = readBoard h tb" by simp
  from A show "cellRef h' tb r c = cellRef h tb r c" by (simp add: cellRef_def Let_def)
qed

lemma combinationStepH_read:
  assumes o: "ownBoard h tb" and cs: "combinationStepH tr tc col tb sg h = (sg', h')"
  shows "combinationStep tr tc col (readBoard h tb) sg = (readBoard h' tb, sg')"
    and "ownBoard h' tb"
proof -
  let ?cs = "checkCombinationsAroundPositionOnBoard tr tc (readBoard h tb) col"
  show "combinationStep tr tc col (readBoard h tb) sg = (readBoard h' tb, sg')"
  proof (cases "?cs = []")
    case True
    with cs show ?thesis
      by (simp add: combinationStepH_def combinationStep_def applyCombinations_def)
  next
    case False
    obtain g ks where cc: "collectCaptures (readBoard h tb) col (concat ?cs) (sg, []) = (g, ks)"
      by force
    with cs False have "sg' = g" "h' = clearSquaresH tb ks h"
      by (simp_all add: combinationStepH_def Let_def)
    with False cc show ?thesis
      by (simp add: combinationStep_def applyCombinations_def readBoard_clearSquaresH [OF o])
  qed
  from cs o show "ownBoard h' tb"
    by (auto simp: combinationStepH_def Let_def ownBoard_clearSquaresH
        split: if_splits prod.splits)
qed

lemma promotionStepH_read:
  assumes o: "ownBoard h tb" and at: "cellRef h tb tr tc = Some movedPiece"
    and sole: "\<And>r c. cellRef h tb r c = Some movedPiece \<Longrightarrow> r = tr \<and> c = tc"
    and src: "map_option (\<lambda>a. pieceObjs h ! a) (cellRef h sourceBoard fr fc)
                = Some (pieceObjs h ! movedPiece)"
    and ps: "promotionStepH fr fc tr tc movedPiece tb sourceBoard h = (res, h')"
  shows "ownBoard h' tb \<and>
         promotionStep tr tc (pieceObjs h ! movedPiece) (readBoard h tb) =
           map_sum id (\<lambda>(pts, leads). (readBoard h' tb, pts, leads)) res"
proof -
  let ?mp = "pieceObjs h ! movedPiece"
  let ?isPromotion = "(color ?mp = White \<and> tr = 0) \<or> (color ?mp = Black \<and> tr = 7)"
  from src obtain a0 where a0: "cellRef h sourceBoard fr fc = Some a0"
    and pa: "pieceObjs h ! a0 = ?mp" by auto
  show ?thesis
  proof (cases "?isPromotion \<and> \<not> promoted ?mp")
    case False
    with ps a0 pa have "res = Inr (0, False)" "h' = h"
      by (auto simp: promotionStepH_def Let_def)
    with False o show ?thesis by (auto simp: promotionStep_def Let_def)
  next
    case True
    define h1 where "h1 = setPromoted movedPiece h"
    have o1: "ownBoard h1 tb" unfolding h1_def by (rule ownBoard_setPromoted [OF o])
    have rb: "readBoard h1 tb = setCell (readBoard h tb) tr tc (Some (?mp\<lparr>promoted := True\<rparr>))"
      unfolding h1_def by (rule readBoard_setPromoted [OF o at sole])
    show ?thesis
    proof (cases "processPromotion tr tc (readBoard h1 tb)")
      case (Inl e)
      with ps a0 pa True have "res = Inl e" "h' = h1"
        by (auto simp: promotionStepH_def Let_def h1_def)
      with True Inl o1 rb show ?thesis by (auto simp: promotionStep_def Let_def)
    next
      case (Inr pr)
      with ps a0 pa True have r: "res = Inr (points pr, leadsToChoice pr)"
        and h': "h' = clearSquaresH tb (captures pr) h1"
        by (auto simp: promotionStepH_def Let_def h1_def)
      have "readBoard h' tb = clearSquares (captures pr) (readBoard h1 tb)"
        unfolding h' by (rule readBoard_clearSquaresH [OF o1])
      moreover have "ownBoard h' tb" unfolding h' by (rule ownBoard_clearSquaresH [OF o1])
      ultimately show ?thesis using True Inr r rb by (auto simp: promotionStep_def Let_def)
    qed
  qed
qed

lemma readResult_invalid [simp]: "readResult h invalidMoveH = invalidMove"
  by (simp add: readResult_def invalidMoveH_def invalidMove_def)

text \<open>
  For a board object whose references point into the store, the simulation on the store
  returns what \<open>simulateFullMove\<close> returns on the value of the board, the board of
  the result being read from the store the simulation leaves.
\<close>

lemma simulateFullMoveH_refines:
  assumes v: "validBoard h sourceBoard"
  shows "simulateFullMove fr fc tr tc forPlayerColor (readBoard h sourceBoard) =
         map_sum id (readResult (snd (simulateFullMoveH fr fc tr tc forPlayerColor sourceBoard h)))
           (fst (simulateFullMoveH fr fc tr tc forPlayerColor sourceBoard h))"
proof -
  let ?B = "readBoard h sourceBoard"
  obtain tb h1 where dc: "deepCopy sourceBoard h = (tb, h1)" by force
  note f1 = deepCopy_fresh [OF dc]
  note D = deepCopy_read [OF v dc]
  from D have rb1: "readBoard h1 tb = ?B" and o1: "ownBoard h1 tb"
    and len1: "length (boardObjs h1 ! tb) = length ?B" by simp_all
  have c1: "cell ?B r c = map_option (\<lambda>a. pieceObjs h1 ! a) (cellRef h1 tb r c)" for r c
    using cell_readBoard [of h1 tb r c] by (simp add: rb1)
  show ?thesis
  proof (cases "cellRef h1 tb fr fc")
    case None
    with dc c1 [of fr fc] show ?thesis
      by (simp add: simulateFullMoveH_def simulateFullMove_def)
  next
    case (Some pieceToMove)
    define p where "p = pieceObjs h1 ! pieceToMove"
    from Some c1 [of fr fc] have cp: "cell ?B fr fc = Some p" by (simp add: p_def)
    show ?thesis
    proof (cases "color p \<noteq> forPlayerColor")
      case True
      with dc Some cp show ?thesis
        by (simp add: simulateFullMoveH_def simulateFullMove_def p_def)
    next
      case False
      obtain movedPiece h2 where al: "allocPiece p h1 = (movedPiece, h2)" by force
      note A = allocPiece_unchanged [OF al]
      from A have mp: "movedPiece = length (pieceObjs h1)"
        and p2: "pieceObjs h2 = pieceObjs h1 @ [p]" and b2: "boardObjs h2 = boardObjs h1"
        by simp_all
      note R2 = allocPiece_read [OF o1 al]
      from R2 have o2: "ownBoard h2 tb" and rb2: "readBoard h2 tb = ?B"
        and cr2: "\<And>r c. cellRef h2 tb r c = cellRef h1 tb r c" by (simp_all add: rb1)
      from freshBoard_allocPiece [OF f1 al] have f2: "freshBoard h tb h2" by simp
      have len2: "length (boardObjs h2 ! tb) = length ?B" by (simp add: b2 len1)
      have occ: "(cellRef h2 tb tr tc \<noteq> None) = (cell ?B tr tc \<noteq> None)"
        by (simp add: c1 cr2)
      show ?thesis
      proof (cases "\<not> tr < length ?B")
        case True
        with dc Some cp False al len2 show ?thesis
          by (simp add: simulateFullMoveH_def simulateFullMove_def p_def [symmetric])
      next
        case tr': False
        then have tr: "tr < length (boardObjs h2 ! tb)" by (simp add: len2)
        show ?thesis
        proof (cases "cell ?B tr tc \<noteq> None")
          case True
          with dc Some cp False al len2 tr' occ show ?thesis
            by (simp add: simulateFullMoveH_def simulateFullMove_def p_def [symmetric])
        next
          case free: False
          with occ have free2: "cellRef h2 tb tr tc = None" by simp
          define h3 where "h3 = writeCell tb tr tc (Some movedPiece) h2"
          define h4 where "h4 = writeCell tb fr fc None h3"
          have mv: "movedPiece < length (pieceObjs h2)" by (simp add: mp p2)
          have o3: "ownBoard h3 tb" unfolding h3_def
            by (rule ownBoard_writeCell [OF o2]) (simp add: mv)
          have o4: "ownBoard h4 tb" unfolding h4_def by (rule ownBoard_writeCell_None [OF o3])
          have pm: "pieceObjs h2 ! movedPiece = p" by (simp add: mp p2)
          have rb3: "readBoard h3 tb = setCell ?B tr tc (Some p)"
            unfolding h3_def using readBoard_writeCell [OF o2, of tr tc "Some movedPiece"]
            by (simp add: rb2 pm)
          have rb4: "readBoard h4 tb = setCell (setCell ?B tr tc (Some p)) fr fc None"
            unfolding h4_def using readBoard_writeCell [OF o3, of fr fc None]
            by (simp add: rb3)
          have p4: "pieceObjs h4 = pieceObjs h2" by (simp add: h4_def h3_def)
          from cellRef_valid [OF o1 Some] len1 have fr: "fr < length (boardObjs h2 ! tb)"
            by (simp add: b2)
          have tr3: "tr < length (boardObjs h3 ! tb)" and fr3: "fr < length (boardObjs h3 ! tb)"
            using tr fr by (simp_all add: h3_def)
          have cr3: "cellRef h3 tb r c =
              (if r = tr \<and> c = tc then Some movedPiece else cellRef h1 tb r c)" for r c
            unfolding h3_def by (simp add: cellRef_writeCell [OF o2 tr] cr2)
          have cr4: "cellRef h4 tb r c =
              (if r = fr \<and> c = fc then None
               else if r = tr \<and> c = tc then Some movedPiece else cellRef h1 tb r c)" for r c
            unfolding h4_def by (simp add: cellRef_writeCell [OF o3 fr3] cr3)
          have ne: "\<not> (tr = fr \<and> tc = fc)"
            using Some free2 by (auto simp: cr2)
          have at: "cellRef h4 tb tr tc = Some movedPiece" using ne by (simp add: cr4)
          have sole: "r = tr \<and> c = tc" if "cellRef h4 tb r c = Some movedPiece" for r c
          proof (rule ccontr)
            assume n: "\<not> (r = tr \<and> c = tc)"
            with that have "cellRef h1 tb r c = Some movedPiece"
              by (simp add: cr4 split: if_splits)
            from cellRef_valid [OF o1 this] mp show False by simp
          qed
          have f4: "freshBoard h tb h4" unfolding h4_def h3_def
            by (intro freshBoard_writeCell f2)
          then have u4: "unchanged h h4" by (simp add: freshBoard_def)
          from unchanged_readBoard [OF u4 v] have "readBoard h4 sourceBoard = ?B" by simp
          with cell_readBoard [of h4 sourceBoard fr fc] cp
          have src: "map_option (\<lambda>a. pieceObjs h4 ! a) (cellRef h4 sourceBoard fr fc)
                = Some (pieceObjs h4 ! movedPiece)"
            by (simp add: p4 pm)
          obtain pres h5 where
            ps: "promotionStepH fr fc tr tc movedPiece tb sourceBoard h4 = (pres, h5)" by force
          from promotionStepH_read [OF o4 at sole src ps]
          have o5: "ownBoard h5 tb"
            and pp: "promotionStep tr tc p (setCell (setCell ?B tr tc (Some p)) fr fc None) =
               map_sum id (\<lambda>(pts, leads). (readBoard h5 tb, pts, leads)) pres"
            by (simp_all add: p4 pm rb4)
          have store: "simulateFullMoveH fr fc tr tc forPlayerColor sourceBoard h =
              (case (pres, h5) of
                 (Inl e, h5) \<Rightarrow> (Inl e, h5)
               | (Inr (scoreGain, leads), h5) \<Rightarrow>
                   (case combinationStepH tr tc forPlayerColor tb scoreGain h5 of
                      (scoreGain', h6) \<Rightarrow>
                        (Inr \<lparr>tempBoardRef = Some tb, aiScoreGainOf = Fin (of_nat scoreGain'),
                              leadsToChoiceOf = leads\<rparr>, h6)))"
            using dc Some False al tr free2 ps
            by (simp add: simulateFullMoveH_def Let_def p_def [symmetric] h4_def h3_def)
          have pure: "simulateFullMove fr fc tr tc forPlayerColor ?B =
              (case promotionStep tr tc p (setCell (setCell ?B tr tc (Some p)) fr fc None) of
                 Inl e \<Rightarrow> Inl e
               | Inr (tb3, scoreGain, leads) \<Rightarrow>
                   (case combinationStep tr tc forPlayerColor tb3 scoreGain of
                      (tb4, scoreGain') \<Rightarrow>
                        Inr \<lparr>tempBoard = Some tb4, aiScoreGain = Fin (of_nat scoreGain'),
                             leadsToChoiceForThisPlayer = leads\<rparr>))"
            using cp False tr' free by (simp add: simulateFullMove_def Let_def)
          show ?thesis
          proof (cases pres)
            case (Inl e)
            with store pure pp show ?thesis by simp
          next
            case (Inr x)
            obtain scoreGain leads where x: "x = (scoreGain, leads)" by force
            obtain sg h6 where cs: "combinationStepH tr tc forPlayerColor tb scoreGain h5 = (sg, h6)"
              by force
            from combinationStepH_read(1) [OF o5 cs]
            have "combinationStep tr tc forPlayerColor (readBoard h5 tb) scoreGain =
                (readBoard h6 tb, sg)" .
            with store pure pp Inr x cs show ?thesis by (simp add: readResult_def)
          qed
        qed
      qed
    qed
  qed
qed

text \<open>
  Claim C2.  For every store, every board object of it whose references point into the
  store, and every move: after \<^verbatim>\<open>simulateFullMove\<close>, whether it returned a result,
  the invalid-move sentinel or an error, every object that the store held is unchanged,
  the source board still refers to the same rows, and every square of the source board
  holds the same piece as before, with the same colour, number and promoted flag.
\<close>

theorem simulateFullMove_keeps_source:
  assumes "validBoard h sourceBoard"
  shows "unchanged h (snd (simulateFullMoveH fr fc tr tc forPlayerColor sourceBoard h)) \<and>
         boardObjs (snd (simulateFullMoveH fr fc tr tc forPlayerColor sourceBoard h)) ! sourceBoard
           = boardObjs h ! sourceBoard \<and>
         readBoard (snd (simulateFullMoveH fr fc tr tc forPlayerColor sourceBoard h)) sourceBoard
           = readBoard h sourceBoard"
proof -
  obtain res h' where r: "simulateFullMoveH fr fc tr tc forPlayerColor sourceBoard h = (res, h')"
    by force
  from simulateFullMoveH_unchanged [OF r] have u: "unchanged h h'" .
  from unchanged_readBoard [OF u assms] u show ?thesis by (simp add: r)
qed

theorem simulateFullMove_keeps_source_witness:
  "validBoard choiceHeap 0 \<and> readBoard choiceHeap 0 = choiceBoard \<and>
   fst (simulateFullMoveH 1 0 0 0 White 0 choiceHeap) =
     Inr \<lparr>tempBoardRef = Some 1, aiScoreGainOf = Fin 5, leadsToChoiceOf = True\<rparr> \<and>
   readBoard (snd (simulateFullMoveH 1 0 0 0 White 0 choiceHeap)) 1 = choiceBoardLeft \<and>
   readBoard (snd (simulateFullMoveH 1 0 0 0 White 0 choiceHeap)) 0 = choiceBoard"
proof -
  have v: "validBoard choiceHeap 0" by code_simp
  have b: "readBoard choiceHeap 0 = choiceBoard" by code_simp
  have r: "fst (simulateFullMoveH 1 0 0 0 White 0 choiceHeap) =
     Inr \<lparr>tempBoardRef = Some 1, aiScoreGainOf = Fin 5, leadsToChoiceOf = True\<rparr>" by code_simp
  have t: "readBoard (snd (simulateFullMoveH 1 0 0 0 White 0 choiceHeap)) 1 = choiceBoardLeft"
    by code_simp
  from simulateFullMove_keeps_source [OF v, of 1 0 0 0 White] b
  have "readBoard (snd (simulateFullMoveH 1 0 0 0 White 0 choiceHeap)) 0 = choiceBoard" by simp
  with v b r t show ?thesis by simp
qed

end
